theory Spec2Isabelle
  imports Main "HOL-Library.Word" "HOL-Library.Multiset" "HOL-Library.Sublist"
begin

unbundle bit_operations_syntax

section \<open>The subscriber registry\<close>

text \<open>
  A channel is identified by the number \<open>make(chan ...)\<close> gave it; Go's \<open>nil\<close> channel
  and \<open>nil\<close> error are \<open>None\<close>. An error value is its message.
\<close>

type_synonym chan = nat
type_synonym error = string
type_synonym streamFrame = "8 word list"

text \<open>\<open>type broadcastResult struct { qid int; err error }\<close>\<close>

record broadcastResult =
  qid :: int
  err :: "error option"

text \<open>
  \<open>type mux struct { sync.Mutex; clients map[int]chan streamFrame; result chan broadcastResult }\<close>.
  The mutex makes every access to \<open>clients\<close> atomic, so an operation on the registry is a
  function from the record to the record.
\<close>

record mux =
  clients :: "int \<rightharpoonup> chan"
  result :: chan

text \<open>
  The search loop of \<open>subscribe\<close>:
  \<^verbatim>\<open>
  qid := 0
  _, ok := m.clients[qid]
  for ; ok; _, ok = m.clients[qid] {
      if qid >= *maxConnections-1 { m.Unlock(); return -1, nil }
      qid++
  }
  \<close>
  \<open>None\<close> is the early return. The flag \<open>*maxConnections\<close> is the parameter \<open>maxc\<close>.
  Go's \<open>int\<close> is modelled by \<open>int\<close>: \<open>maxc - 1\<close> wraps only for the least machine
  integer, and \<open>qid\<close> never exceeds \<open>max 0 (maxc - 1)\<close>.
\<close>

function search_qid :: "int \<Rightarrow> (int \<rightharpoonup> chan) \<Rightarrow> int \<Rightarrow> int option" where
  "search_qid maxc cl q =
     (if cl q \<noteq> None
      then (if q \<ge> maxc - 1 then None else search_qid maxc cl (q + 1))
      else Some q)"
  by pat_completeness auto
termination
  by (relation "measure (\<lambda>(maxc, cl, q). nat (maxc - 1 - q))") auto

declare search_qid.simps [simp del]

text \<open>
  \<open>func (m *mux) subscribe(ch chan streamFrame) (int, chan broadcastResult)\<close>: the pair
  returned, and the registry afterwards. The failure sentinel is \<open>(-1, nil)\<close>.
\<close>

definition subscribe :: "int \<Rightarrow> chan \<Rightarrow> mux \<Rightarrow> (int \<times> chan option) \<times> mux" where
  "subscribe maxc ch m =
     (case search_qid maxc (clients m) 0 of
        None \<Rightarrow> ((- 1, None), m)
      | Some q \<Rightarrow> ((q, Some (result m)), m\<lparr>clients := (clients m)(q \<mapsto> ch)\<rparr>))"

text \<open>
  The eviction in the broadcast loop, on the registry alone:
  \<open>delete(m.clients, br.qid)\<close>.
\<close>

definition evict :: "int \<Rightarrow> mux \<Rightarrow> mux" where
  "evict q m = m\<lparr>clients := (clients m)(q := None)\<rparr>"

text \<open>\<open>start\<close> makes the registry empty: \<open>m.clients = make(map[int]chan streamFrame)\<close>.\<close>

definition start_mux :: "chan \<Rightarrow> mux" where
  "start_mux r = \<lparr>clients = Map.empty, result = r\<rparr>"

datatype regop = OpSubscribe chan | OpEvict int

fun apply_regop :: "int \<Rightarrow> mux \<Rightarrow> regop \<Rightarrow> mux" where
  "apply_regop maxc m (OpSubscribe ch) = snd (subscribe maxc ch m)"
| "apply_regop maxc m (OpEvict q) = evict q m"

definition run_regops :: "int \<Rightarrow> chan \<Rightarrow> regop list \<Rightarrow> mux" where
  "run_regops maxc r ops = foldl (apply_regop maxc) (start_mux r) ops"


text \<open>The ids the flag allows: \<open>[0, maxConnections)\<close>.\<close>

definition in_id_range :: "int \<Rightarrow> int \<Rightarrow> bool" where
  "in_id_range maxc q \<longleftrightarrow> 0 \<le> q \<and> q < maxc"

section \<open>Stripping the ID3v2 tag\<close>

text \<open>
  \<open>buf, err := ioutil.ReadAll(r)\<close> gives a Go slice. A slice has a length and a capacity:
  \<open>backing\<close> holds the bytes of its array from the slice's first byte up to the capacity,
  \<open>slen\<close> is \<open>len(buf)\<close>, and \<open>length (backing buf)\<close> is \<open>cap(buf)\<close>. The library
  call is not part of the repository, so the slice it returns is the input of the model.
\<close>

type_synonym byte = "8 word"

record goslice =
  backing :: "byte list"
  slen :: nat

definition wf_slice :: "goslice \<Rightarrow> bool" where
  "wf_slice b \<longleftrightarrow> slen b \<le> length (backing b)"

text \<open>The bytes a reader over the slice yields: \<open>bytes.NewReader(buf)\<close>.\<close>

definition contents :: "goslice \<Rightarrow> byte list" where
  "contents b = take (slen b) (backing b)"

datatype panic = IndexOutOfRange | SliceBoundsOutOfRange

text \<open>
  The three accesses of \<open>stripID3Header\<close>, with Go's run-time checks.
  \<^item> \<open>buf[:n]\<close>: for a slice the upper bound of a slice expression is the capacity, not
    the length, so \<open>buf[:3]\<close> panics only when \<open>cap(buf) < 3\<close>.
  \<^item> \<open>buf[i]\<close>: the index must be below the length.
  \<^item> \<open>buf[low:]\<close> is \<open>buf[low:len(buf)]\<close>: it needs \<open>0 \<le> low \<le> len(buf)\<close>.
\<close>

definition slice_upto :: "goslice \<Rightarrow> nat \<Rightarrow> panic + byte list" where
  "slice_upto b n =
     (if n \<le> length (backing b) then Inr (take n (backing b)) else Inl SliceBoundsOutOfRange)"

definition index :: "goslice \<Rightarrow> nat \<Rightarrow> panic + byte" where
  "index b i = (if i < slen b then Inr (backing b ! i) else Inl IndexOutOfRange)"

definition slice_from :: "goslice \<Rightarrow> int \<Rightarrow> panic + byte list" where
  "slice_from b low =
     (if 0 \<le> low \<and> nat low \<le> slen b then Inr (drop (nat low) (contents b))
      else Inl SliceBoundsOutOfRange)"

text \<open>A panic ends the function: the rest runs only on a value.\<close>

definition pbind :: "panic + 'a \<Rightarrow> ('a \<Rightarrow> panic + 'b) \<Rightarrow> panic + 'b" where
  "pbind x f = (case x of Inl p \<Rightarrow> Inl p | Inr v \<Rightarrow> f v)"

definition is_panic :: "panic + 'a \<Rightarrow> bool" where
  "is_panic r = (case r of Inl p \<Rightarrow> True | Inr v \<Rightarrow> False)"

text \<open>The marker \<open>"ID3"\<close>.\<close>

definition ID3 :: "byte list" where
  "ID3 = [0x49, 0x44, 0x33]"

text \<open>
  \<open>int32(buf[6])<<21 | int32(buf[7])<<14 | int32(buf[8])<<7 | int32(buf[9])\<close>, on 32-bit
  words. The bytes are not masked to 7 bits.
\<close>

definition decode_size :: "byte \<Rightarrow> byte \<Rightarrow> byte \<Rightarrow> byte \<Rightarrow> 32 word" where
  "decode_size b6 b7 b8 b9 =
     push_bit 21 (ucast b6) OR push_bit 14 (ucast b7) OR push_bit 7 (ucast b8) OR ucast b9"

text \<open>
  \<^verbatim>\<open>
  func stripID3Header(r io.Reader) io.Reader {
      buf, err := ioutil.ReadAll(r)
      if err != nil { ...; return bytes.NewReader(make([]byte, 0)) }
      if string(buf[:3]) != "ID3" { return bytes.NewReader(buf) }
      id3size := int32(buf[6])<<21 | int32(buf[7])<<14 | int32(buf[8])<<7 | int32(buf[9])
      id3size += 10
      return bytes.NewReader(buf[id3size:])
  }
  \<close>
  The argument is what \<open>ReadAll\<close> returned, the result is the bytes of the reader returned.
\<close>

definition stripID3Header :: "goslice \<times> error option \<Rightarrow> panic + byte list" where
  "stripID3Header r =
     (case r of (buf, e) \<Rightarrow>
        if e \<noteq> None then Inr []
        else pbind (slice_upto buf 3) (\<lambda>marker.
          if marker \<noteq> ID3 then Inr (contents buf)
          else pbind (index buf 6) (\<lambda>b6.
               pbind (index buf 7) (\<lambda>b7.
               pbind (index buf 8) (\<lambda>b8.
               pbind (index buf 9) (\<lambda>b9.
                 let id3size = decode_size b6 b7 b8 b9;
                     id3size = id3size + 10
                 in slice_from buf (sint id3size)))))))"

text \<open>The size the code reads from bytes 6 to 9 of a buffer.\<close>

definition declared_size :: "goslice \<Rightarrow> nat" where
  "declared_size b =
     unat (decode_size (backing b ! 6) (backing b ! 7) (backing b ! 8) (backing b ! 9))"

text \<open>
  The size as the specification words it: a 28-bit syncsafe integer, each of the four
  bytes contributing its low 7 bits. A size field is valid when the high bit of each byte
  is zero.
\<close>

definition syncsafe :: "byte \<Rightarrow> byte \<Rightarrow> byte \<Rightarrow> byte \<Rightarrow> nat" where
  "syncsafe b6 b7 b8 b9 =
     (unat b6 mod 128) * 2 ^ 21 + (unat b7 mod 128) * 2 ^ 14 + (unat b8 mod 128) * 2 ^ 7
     + unat b9 mod 128"

definition tag_size :: "goslice \<Rightarrow> nat" where
  "tag_size b = syncsafe (backing b ! 6) (backing b ! 7) (backing b ! 8) (backing b ! 9)"

definition valid_syncsafe :: "goslice \<Rightarrow> bool" where
  "valid_syncsafe b \<longleftrightarrow>
     backing b ! 6 < 128 \<and> backing b ! 7 < 128 \<and> backing b ! 8 < 128 \<and> backing b ! 9 < 128"

section \<open>Decoding and pacing\<close>

text \<open>
  \<open>time.Duration\<close> is an \<open>int64\<close> count of nanoseconds: a 64-bit word, added and
  subtracted with wrap-around and compared as a signed number.
\<close>

type_synonym Duration = "64 word"

definition Second :: Duration where
  "Second = 1000000000"

text \<open>
  One turn of the inner loop of the decoding goroutine calls \<open>d.Decode(&f)\<close> and, when
  that succeeds, \<open>ioutil.ReadAll(f.Reader())\<close>. The decoder is external; what it gives in
  one turn is the input of the model: the end of the stream, a decode error, a read error,
  or a frame with its payload, its \<open>f.Duration()\<close> and the time
  \<open>time.Now().Sub(t0)\<close> measured once the frame has been handed on.
\<close>

datatype decoded = DecodeEOF | DecodeError | ReadError | Decoded streamFrame Duration Duration

text \<open>What the goroutine does: \<open>nextFrame <- buf\<close> and \<open>time.Sleep(d)\<close>.\<close>

datatype pevent = Emit streamFrame | Sleep Duration

text \<open>
  The inner loop of the goroutine "decode stream to frames and delay for frame duration" of
  \<open>start\<close>, on one stream, from the accumulator \<open>cumwait\<close> to the accumulator at the
  end of the stream:
  \<^verbatim>\<open>
  for {
      t0 := time.Now()
      err := d.Decode(&f)
      if err == io.EOF { break }
      if err != nil { continue }
      buf, err := ioutil.ReadAll(f.Reader())
      if err != nil { continue }
      nextFrame <- buf
      towait := f.Duration() - time.Now().Sub(t0)
      cumwait += towait // towait can be negative -> cumwait
      if cumwait > 1*time.Second {
          time.Sleep(cumwait)
          cumwait = 0
      }
  }
  \<close>
  A list that ends without \<open>DecodeEOF\<close> is a stream still being decoded.
\<close>

fun decode_stream :: "decoded list \<Rightarrow> Duration \<Rightarrow> pevent list \<times> Duration" where
  "decode_stream [] cumwait = ([], cumwait)"
| "decode_stream (DecodeEOF # ds) cumwait = ([], cumwait)"
| "decode_stream (DecodeError # ds) cumwait = decode_stream ds cumwait"
| "decode_stream (ReadError # ds) cumwait = decode_stream ds cumwait"
| "decode_stream (Decoded buf dur cost # ds) cumwait =
     (let towait = dur - cost;
          cumwait = cumwait + towait
      in if sint (1 * Second) < sint cumwait
         then (let (evs, c) = decode_stream ds 0 in (Emit buf # Sleep cumwait # evs, c))
         else (let (evs, c) = decode_stream ds cumwait in (Emit buf # evs, c)))"

text \<open>
  The outer loop takes one stream after the other from \<open>nextStream\<close>; \<open>cumwait\<close> is
  declared outside it and is kept from one stream to the next.
\<close>

fun decode_frames :: "decoded list list \<Rightarrow> Duration \<Rightarrow> pevent list \<times> Duration" where
  "decode_frames [] cumwait = ([], cumwait)"
| "decode_frames (s # ss) cumwait =
     (let (evs, c) = decode_stream s cumwait;
          (evs', c') = decode_frames ss c
      in (evs @ evs', c'))"

text \<open>
  The decoding goroutine of the older \<open>start\<close> keeps no accumulator:
  \<^verbatim>\<open>
      m.nextFrame <- buf
      towait := f.Duration() - time.Now().Sub(t0)
      if towait > 0 {
          time.Sleep(towait)
      }
  \<close>
\<close>

fun decode_stream_old :: "decoded list \<Rightarrow> pevent list" where
  "decode_stream_old [] = []"
| "decode_stream_old (DecodeEOF # ds) = []"
| "decode_stream_old (DecodeError # ds) = decode_stream_old ds"
| "decode_stream_old (ReadError # ds) = decode_stream_old ds"
| "decode_stream_old (Decoded buf dur cost # ds) =
     (let towait = dur - cost
      in if 0 < sint towait
         then Emit buf # Sleep towait # decode_stream_old ds
         else Emit buf # decode_stream_old ds)"

definition decode_frames_old :: "decoded list list \<Rightarrow> pevent list" where
  "decode_frames_old ss = concat (map decode_stream_old ss)"

text \<open>The frames decoded from a stream, in order, each with its duration and its cost.\<close>

fun frames_of_stream :: "decoded list \<Rightarrow> (streamFrame \<times> Duration \<times> Duration) list" where
  "frames_of_stream [] = []"
| "frames_of_stream (DecodeEOF # ds) = []"
| "frames_of_stream (Decoded buf dur cost # ds) = (buf, dur, cost) # frames_of_stream ds"
| "frames_of_stream (d # ds) = frames_of_stream ds"

definition frames_of :: "decoded list list \<Rightarrow> (streamFrame \<times> Duration \<times> Duration) list" where
  "frames_of ss = concat (map frames_of_stream ss)"

text \<open>
  The pacing algorithm as the specification words it, on the decoded frames alone: the
  slack of a frame is its duration minus the cost of producing it; the slack is added to a
  running total; when the total exceeds one second the pipeline sleeps for the total and
  the total becomes zero; otherwise it does not sleep.
\<close>

fun pace :: "Duration \<Rightarrow> (streamFrame \<times> Duration \<times> Duration) list \<Rightarrow> pevent list \<times> Duration" where
  "pace acc [] = ([], acc)"
| "pace acc ((buf, dur, cost) # fs) =
     (let slack = dur - cost;
          total = acc + slack
      in if sint total > sint Second
         then (Emit buf # Sleep total # fst (pace 0 fs), snd (pace 0 fs))
         else (Emit buf # fst (pace total fs), snd (pace total fs)))"

text \<open>Pacing without an accumulator: after each frame, sleep for its slack when positive.\<close>

definition pace_per_frame :: "(streamFrame \<times> Duration \<times> Duration) list \<Rightarrow> pevent list" where
  "pace_per_frame fs =
     concat (map (\<lambda>(buf, dur, cost).
        if 0 < sint (dur - cost) then [Emit buf, Sleep (dur - cost)] else [Emit buf]) fs)"

text \<open>The sleeps of a run, in order.\<close>

definition sleeps :: "pevent list \<Rightarrow> Duration list" where
  "sleeps evs = concat (map (\<lambda>e. case e of Sleep d \<Rightarrow> [d] | Emit b \<Rightarrow> []) evs)"

section \<open>The client session\<close>

text \<open>
  What happens to one write of the handler is decided by the network and the clock, so it
  is an input of the model: \<open>io.Copy\<close> returned \<open>nil\<close> and the \<open>select\<close> received
  \<open>nil\<close> on \<open>result\<close> before the timer fired (\<open>Written\<close>), \<open>io.Copy\<close> returned an
  error and the \<open>select\<close> received it before the timer fired (\<open>Failed\<close>), or
  \<open>time.After(broadcastTimeout)\<close> fired first.

  The write goroutine and the handler share the variable \<open>err\<close> without
  synchronisation: the goroutine assigns it when \<open>io.Copy\<close> returns
  (\<open>_, err = io.Copy(w, bytes.NewReader(b))\<close>), the handler assigns it in the timeout
  branch of the \<open>select\<close>, tests it after the \<open>select\<close> (\<open>if err != nil\<close>) and
  reads it once more for the last report (\<open>br <- broadcastResult{qid, err}\<close>). After
  the timer has fired there are three cases. \<open>TimedOut\<close>: both reads of the handler see
  the timeout error (the goroutine assigned before the handler did, or assigns after the last
  read). \<open>RacedBeforeTest v\<close>: \<open>io.Copy\<close> returns \<open>v\<close> and the goroutine assigns it
  after the handler's assignment and before the handler's test; when \<open>v\<close> is \<open>nil\<close> the
  test fails and the loop goes on. \<open>RacedBeforeReport v\<close>: the goroutine assigns \<open>v\<close>
  after the handler's test and before the read for the last report.
\<close>

datatype write_outcome =
    Written
  | Failed error
  | TimedOut
  | RacedBeforeTest "error option"
  | RacedBeforeReport "error option"

text \<open>The writes whose \<open>io.Copy\<close> is known to have returned \<open>nil\<close>.\<close>

fun completed :: "write_outcome \<Rightarrow> bool" where
  "completed Written = True"
| "completed (RacedBeforeTest None) = True"
| "completed (RacedBeforeReport None) = True"
| "completed out = False"

text \<open>The calls on the \<open>http.ResponseWriter\<close>, in the order the handler makes them.\<close>

datatype wcall = WriteHeader nat | HeaderSet string string | Write "byte list" write_outcome | Flush

text \<open>
  What a session does: it receives a frame from its queue (\<open>buf := <-frames\<close>), calls
  the response writer, sends a report on the channel subscribe gave it, or logs that the
  connection is denied.
\<close>

datatype sevent = Receive streamFrame | Call wcall | Report "chan option" broadcastResult | LogDenied

text \<open>\<open>errors.New(fmt.Sprintf("timeout: %v", broadcastTimeout))\<close> with a timeout of 4 s.\<close>

definition timeout_error :: error where
  "timeout_error = ''timeout: 4s''"

text \<open>\<open>b := []byte{0x49, 0x44, 0x33, 0x03, 0x00, 0x00, 0x00, 0x00, 0x00, 0x00}\<close>\<close>

definition id3_stub :: "byte list" where
  "id3_stub = [0x49, 0x44, 0x33, 0x03, 0x00, 0x00, 0x00, 0x00, 0x00, 0x00]"

text \<open>
  \<open>io.Copy(w, bytes.NewReader(b))\<close>: the reader writes its bytes with one call of
  \<open>w.Write\<close>, and makes no call when there is no byte to write.
\<close>

definition io_copy :: "byte list \<Rightarrow> write_outcome \<Rightarrow> wcall list" where
  "io_copy b out = (if b = [] then [] else [Write b out])"

text \<open>
  How the loop of \<open>ServeHTTP\<close> stands when the frames delivered are used up:
  \<open>Streaming\<close>, the handler waits in \<open>buf := <-frames\<close>; \<open>Exited v\<close>, it has left the
  loop with \<open>v\<close> as the value it reads in \<open>err\<close> for the last report.
\<close>

datatype loop_end = Streaming | Exited "error option"

text \<open>
  The loop of \<open>ServeHTTP\<close>, on the frames the queue delivers, each with the outcome of
  its write. The result is what the session did and how the loop stands:
  \<^verbatim>\<open>
  for {
      buf := <-frames
      go func(r chan error, b []byte) {
          _, err = io.Copy(w, bytes.NewReader(b))
          r <- err
      }(result, buf)
      select {
      case err = <-result:
          if err != nil { break }
          br <- broadcastResult{qid, nil} // frame streamed, no error, send ack
      case <-time.After(broadcastTimeout):
          err = errors.New(fmt.Sprintf("timeout: %v", broadcastTimeout))
      }
      if err != nil { break }
  }
  \<close>
\<close>

fun stream_loop :: "int \<Rightarrow> chan option \<Rightarrow> (streamFrame \<times> write_outcome) list
                    \<Rightarrow> sevent list \<times> loop_end" where
  "stream_loop q br [] = ([], Streaming)"
| "stream_loop q br ((buf, Written) # fs) =
     (let (evs, e) = stream_loop q br fs
      in (Receive buf # map Call (io_copy buf Written) @ Report br \<lparr>qid = q, err = None\<rparr> # evs, e))"
| "stream_loop q br ((buf, Failed e) # fs) =
     (Receive buf # map Call (io_copy buf (Failed e)), Exited (Some e))"
| "stream_loop q br ((buf, TimedOut) # fs) =
     (Receive buf # map Call (io_copy buf TimedOut), Exited (Some timeout_error))"
| "stream_loop q br ((buf, RacedBeforeTest None) # fs) =
     (let (evs, e) = stream_loop q br fs
      in (Receive buf # map Call (io_copy buf (RacedBeforeTest None)) @ evs, e))"
| "stream_loop q br ((buf, RacedBeforeTest (Some e)) # fs) =
     (Receive buf # map Call (io_copy buf (RacedBeforeTest (Some e))), Exited (Some e))"
| "stream_loop q br ((buf, RacedBeforeReport v) # fs) =
     (Receive buf # map Call (io_copy buf (RacedBeforeReport v)), Exited v)"

text \<open>
  \<open>func (sh streamHandler) ServeHTTP(w http.ResponseWriter, r *http.Request)\<close>. The
  arguments are the flag, the formatted time \<open>now.Format(http.TimeFormat)\<close>, the channel
  \<open>frames := make(chan streamFrame)\<close>, the error of the write of the stub (\<open>None\<close> for
  \<open>nil\<close>), the frames delivered with the outcomes of their writes, and the registry.
  \<^verbatim>\<open>
  qid, br := sh.subscribe(frames)
  if qid < 0 { log.Printf(...); w.WriteHeader(http.StatusTooManyRequests); return }
  w.WriteHeader(http.StatusOK)
  w.Header().Set("Date", now.Format(http.TimeFormat))
  w.Header().Set("Connection", "Keep-Alive")
  w.Header().Set("Cache-Control", "no-cache")
  w.Header().Set("Content-Type", "audio/mpeg")
  w.Header().Set("Server", "BoringStreamer/4.0")
  b := []byte{...}
  _, err := io.Copy(w, bytes.NewReader(b))
  if err == nil { ... the loop ... }
  br <- broadcastResult{qid, err} // error, send nack
  \<close>
\<close>

definition ServeHTTP ::
  "int \<Rightarrow> string \<Rightarrow> chan \<Rightarrow> error option \<Rightarrow> (streamFrame \<times> write_outcome) list \<Rightarrow> mux
   \<Rightarrow> sevent list \<times> mux" where
  "ServeHTTP maxc now frames stub fs m =
     (case subscribe maxc frames m of ((q, br), m') \<Rightarrow>
        if q < 0 then ([LogDenied, Call (WriteHeader 429)], m')
        else
          let head = [Call (WriteHeader 200),
                      Call (HeaderSet ''Date'' now),
                      Call (HeaderSet ''Connection'' ''Keep-Alive''),
                      Call (HeaderSet ''Cache-Control'' ''no-cache''),
                      Call (HeaderSet ''Content-Type'' ''audio/mpeg''),
                      Call (HeaderSet ''Server'' ''BoringStreamer/4.0'')]
          in (case stub of
                Some e \<Rightarrow>
                  (head @ map Call (io_copy id3_stub (Failed e))
                     @ [Report br \<lparr>qid = q, err = Some e\<rparr>], m')
              | None \<Rightarrow>
                  (case stream_loop q br fs of
                     (evs, Exited v) \<Rightarrow>
                       (head @ map Call (io_copy id3_stub Written) @ evs
                          @ [Report br \<lparr>qid = q, err = v\<rparr>], m')
                   | (evs, Streaming) \<Rightarrow>
                       (head @ map Call (io_copy id3_stub Written) @ evs, m'))))"



text \<open>
  The response the calls produce, by the contract of \<open>http.ResponseWriter\<close>:
  \<open>WriteHeader\<close> sends the status with the header map as it is at that moment, and
  changing the header map after a call to \<open>WriteHeader\<close> (or \<open>Write\<close>) has no effect;
  a \<open>Write\<close> before any \<open>WriteHeader\<close> sends status 200 first; a second
  \<open>WriteHeader\<close> is ignored. The body is the bytes of the writes that returned \<open>nil\<close>,
  before the timer fired or after it. Headers the server adds by itself are not part of the
  model.
\<close>

record response =
  status :: "nat option"
  sent_header :: "string \<rightharpoonup> string"
  handler_header :: "string \<rightharpoonup> string"
  body :: "byte list"
  flushes :: nat

definition new_response :: response where
  "new_response = \<lparr>status = None, sent_header = Map.empty, handler_header = Map.empty,
                    body = [], flushes = 0\<rparr>"

definition write_header :: "nat \<Rightarrow> response \<Rightarrow> response" where
  "write_header code r =
     (if status r \<noteq> None then r
      else r\<lparr>status := Some code, sent_header := handler_header r\<rparr>)"

fun respond1 :: "response \<Rightarrow> wcall \<Rightarrow> response" where
  "respond1 r (WriteHeader code) = write_header code r"
| "respond1 r (HeaderSet k v) = r\<lparr>handler_header := (handler_header r)(k \<mapsto> v)\<rparr>"
| "respond1 r (Write b out) =
     (let r = write_header 200 r in if completed out then r\<lparr>body := body r @ b\<rparr> else r)"
| "respond1 r Flush = (let r = write_header 200 r in r\<lparr>flushes := flushes r + 1\<rparr>)"

text \<open>The calls, the reports and the frames received of a session, each in order.\<close>

definition calls_of :: "sevent list \<Rightarrow> wcall list" where
  "calls_of evs = concat (map (\<lambda>e. case e of Call c \<Rightarrow> [c] | _ \<Rightarrow> []) evs)"

definition reports_of :: "sevent list \<Rightarrow> broadcastResult list" where
  "reports_of evs = concat (map (\<lambda>e. case e of Report br r \<Rightarrow> [r] | _ \<Rightarrow> []) evs)"

definition received_of :: "sevent list \<Rightarrow> streamFrame list" where
  "received_of evs = concat (map (\<lambda>e. case e of Receive b \<Rightarrow> [b] | _ \<Rightarrow> []) evs)"

definition respond :: "sevent list \<Rightarrow> response" where
  "respond evs = foldl respond1 new_response (calls_of evs)"

text \<open>
  The frames a session takes from its queue: every frame up to and including the first one
  after which the handler leaves the loop.
\<close>

fun taken :: "(streamFrame \<times> write_outcome) list \<Rightarrow> (streamFrame \<times> write_outcome) list" where
  "taken [] = []"
| "taken ((buf, Written) # fs) = (buf, Written) # taken fs"
| "taken ((buf, RacedBeforeTest None) # fs) = (buf, RacedBeforeTest None) # taken fs"
| "taken ((buf, out) # fs) = [(buf, out)]"

text \<open>
  The report the specification asks for after a write with a given outcome: success when
  the write completed without error before the deadline, the timeout error when the
  deadline elapsed first, the error of the write otherwise.
\<close>

definition report_for :: "int \<Rightarrow> write_outcome \<Rightarrow> broadcastResult" where
  "report_for q out =
     (case out of Written \<Rightarrow> \<lparr>qid = q, err = None\<rparr>
      | Failed e \<Rightarrow> \<lparr>qid = q, err = Some e\<rparr>
      | _ \<Rightarrow> \<lparr>qid = q, err = Some timeout_error\<rparr>)"

text \<open>
  The whole of what the specification asks of a session between the stub and its end: for
  each frame taken, the frame is received, its payload is written, and the report for the
  outcome of the write is sent on the channel of the session.
\<close>

definition in_step :: "int \<Rightarrow> chan option \<Rightarrow> (streamFrame \<times> write_outcome) list \<Rightarrow> sevent list" where
  "in_step q br fs =
     concat (map (\<lambda>(buf, out). Receive buf # map Call (io_copy buf out) @ [Report br (report_for q out)])
                 (taken fs))"

text \<open>The outcomes in which the goroutine assigns \<open>err\<close> between the handler's
  assignment and its last read.\<close>

fun raced :: "write_outcome \<Rightarrow> bool" where
  "raced (RacedBeforeTest v) = True"
| "raced (RacedBeforeReport v) = True"
| "raced out = False"


section \<open>The broadcast loop\<close>

text \<open>
  The broadcasting goroutine of \<open>start\<close> and the handlers share the registry under its
  mutex:
  \<^verbatim>\<open>
  for {
      f := <-nextFrame
      m.Lock()
      for _, ch := range m.clients {
          m.Unlock()
          ch <- f
          br := <-m.result // handle quitting clients
          if br.err != nil {
              m.Lock()
              close(m.clients[br.qid])
              delete(m.clients, br.qid)
              nclients := len(m.clients)
              m.Unlock()
              ...
          }
          m.Lock()
      }
      m.Unlock()
  }
  \<close>
  The places of the goroutine between two of its steps: it waits for the next frame, the
  mutex free (\<open>AwaitFrame\<close>); it holds the mutex and \<open>range\<close> is about to go on
  (\<open>AtRange\<close>); it has unlocked and waits in \<open>ch <- f\<close> (\<open>Sending ch\<close>); it waits in
  \<open><-m.result\<close> (\<open>Receiving\<close>); it has received a failure report and is about to lock
  for the eviction (\<open>Evicting br\<close>); it is about to lock at the end of the iteration
  (\<open>Relocking\<close>). The mutex is free everywhere but in \<open>AtRange\<close>.
\<close>

datatype pc = AwaitFrame | AtRange | Sending chan | Receiving | Evicting broadcastResult | Relocking

text \<open>
  The state is the registry, the channels closed so far, the number of channels made so far
  (a channel is the number \<open>make\<close> gave it; \<open>m.result\<close> is channel 0), the place of the
  goroutine, the frame of the round, and what \<open>range\<close> has to go by: the keys of the map
  when the loop began, the keys whose entry it has produced, and the keys whose entry was
  removed since the loop began.
\<close>

record bstate =
  mx :: mux
  closed :: "chan set"
  nchan :: nat
  pc :: pc
  cur :: streamFrame
  ranged :: "int set"
  yielded :: "int set"
  removed :: "int set"

text \<open>
  What happens to the registry and the queues: the broadcaster sends a frame on a queue
  (\<open>ch <- f\<close>), receives a report (\<open>br := <-m.result\<close>), closes a queue, deletes an id;
  a handler subscribes or is denied.
\<close>

datatype bevent =
    Send chan streamFrame
  | RecvReport broadcastResult
  | Close chan
  | Delete int
  | Subscribed int chan
  | Denied chan

text \<open>The run-time panics of channel operations.\<close>

datatype bpanic = SendOnClosedChannel | CloseOfNilChannel | CloseOfClosedChannel

text \<open>
  A run is driven by what the model cannot compute, one step at a time: a frame arrives on
  \<open>nextFrame\<close> and the goroutine locks (\<open>NextFrame f\<close>); \<open>range\<close> produces the entry of
  a key and the goroutine unlocks (\<open>Yield k\<close>); \<open>range\<close> ends and the goroutine unlocks
  (\<open>EndRange\<close>); the send completes (\<open>SendDone\<close>); a report arrives on \<open>m.result\<close>
  (\<open>ReportIn br\<close>); the goroutine locks, evicts and unlocks (\<open>Evict\<close>); it locks at the
  end of the iteration (\<open>Relock\<close>); a handler makes a channel and calls \<open>subscribe\<close>
  (\<open>Connect\<close>), which takes the mutex.
\<close>

datatype step =
    NextFrame streamFrame
  | Yield int
  | EndRange
  | SendDone
  | ReportIn broadcastResult
  | Evict
  | Relock
  | Connect

text \<open>
  A step list either is a run of the loop, with its events and the state reached, or makes
  the goroutine panic, or is no run: a step that the place of the goroutine does not allow,
  or that \<open>range\<close> cannot take.
\<close>

datatype 'a outcome = Done 'a | Panicked bpanic | NotARun

text \<open>\<open>start\<close>: \<open>m.result = make(chan broadcastResult)\<close>, an empty registry, and the
  goroutine waiting for the first frame.\<close>

definition start_state :: bstate where
  "start_state = \<lparr>mx = start_mux 0, closed = {}, nchan = 1, pc = AwaitFrame, cur = [],
                   ranged = {}, yielded = {}, removed = {}\<rparr>"

text \<open>The first two statements of \<open>ServeHTTP\<close>: \<open>frames := make(chan streamFrame)\<close> and
  \<open>qid, br := sh.subscribe(frames)\<close>.\<close>

definition connect :: "int \<Rightarrow> bstate \<Rightarrow> bevent list \<times> bstate" where
  "connect maxc s =
     (let frames = nchan s;
          s = s\<lparr>nchan := nchan s + 1\<rparr>
      in case subscribe maxc frames (mx s) of
           ((q, br), m') \<Rightarrow>
             if q < 0 then ([Denied frames], s) else ([Subscribed q frames], s\<lparr>mx := m'\<rparr>))"

text \<open>
  \<open>for _, ch := range m.clients\<close>, by the language: an entry not yet reached and not
  removed is produced, each entry is produced once, an entry removed before it is reached
  is not produced, an entry created during the loop may be produced or not. So \<open>range\<close>
  can produce the entry of a registered key that it has not produced, and it can end when
  every key of the beginning has been produced or removed.
\<close>

definition range_yields :: "bstate \<Rightarrow> int \<Rightarrow> chan option" where
  "range_yields s k = (if k \<in> yielded s then None else clients (mx s) k)"

definition range_ends :: "bstate \<Rightarrow> bool" where
  "range_ends s \<longleftrightarrow> ranged s \<subseteq> yielded s \<union> removed s"

text \<open>
  \<open>close(m.clients[br.qid]); delete(m.clients, br.qid)\<close> under the mutex. Closing the
  \<open>nil\<close> channel that a missing key gives and closing a closed channel panic.
\<close>

definition evict_step :: "broadcastResult \<Rightarrow> bstate \<Rightarrow> (bevent list \<times> bstate) outcome" where
  "evict_step br s =
     (case clients (mx s) (qid br) of
        None \<Rightarrow> Panicked CloseOfNilChannel
      | Some c \<Rightarrow>
          if c \<in> closed s then Panicked CloseOfClosedChannel
          else Done ([Close c, Delete (qid br)],
                     s\<lparr>mx := evict (qid br) (mx s), closed := insert c (closed s),
                       yielded := yielded s - {qid br}, removed := insert (qid br) (removed s),
                       pc := Relocking\<rparr>))"

text \<open>One step of the run. Sending on a closed channel panics.\<close>

fun bstep :: "int \<Rightarrow> step \<Rightarrow> bstate \<Rightarrow> (bevent list \<times> bstate) outcome" where
  "bstep maxc (NextFrame f) s =
     (if pc s = AwaitFrame
      then Done ([], s\<lparr>pc := AtRange, cur := f, ranged := dom (clients (mx s)),
                       yielded := {}, removed := {}\<rparr>)
      else NotARun)"
| "bstep maxc (Yield k) s =
     (if pc s = AtRange
      then (case range_yields s k of
              None \<Rightarrow> NotARun
            | Some ch \<Rightarrow> Done ([], s\<lparr>pc := Sending ch, yielded := insert k (yielded s)\<rparr>))
      else NotARun)"
| "bstep maxc EndRange s =
     (if pc s = AtRange \<and> range_ends s then Done ([], s\<lparr>pc := AwaitFrame\<rparr>) else NotARun)"
| "bstep maxc SendDone s =
     (case pc s of
        Sending ch \<Rightarrow>
          if ch \<in> closed s then Panicked SendOnClosedChannel
          else Done ([Send ch (cur s)], s\<lparr>pc := Receiving\<rparr>)
      | _ \<Rightarrow> NotARun)"
| "bstep maxc (ReportIn br) s =
     (if pc s = Receiving
      then Done ([RecvReport br], s\<lparr>pc := (if err br = None then Relocking else Evicting br)\<rparr>)
      else NotARun)"
| "bstep maxc Evict s =
     (case pc s of Evicting br \<Rightarrow> evict_step br s | _ \<Rightarrow> NotARun)"
| "bstep maxc Relock s =
     (if pc s = Relocking then Done ([], s\<lparr>pc := AtRange\<rparr>) else NotARun)"
| "bstep maxc Connect s =
     (if pc s = AtRange then NotARun else Done (connect maxc s))"

text \<open>The goroutine, on the steps of a run.\<close>

fun broadcast :: "int \<Rightarrow> step list \<Rightarrow> bstate \<Rightarrow> (bevent list \<times> bstate) outcome" where
  "broadcast maxc [] s = Done ([], s)"
| "broadcast maxc (x # xs) s =
     (case bstep maxc x s of
        Done (evs, s') \<Rightarrow>
          (case broadcast maxc xs s' of
             Done (evs', s'') \<Rightarrow> Done (evs @ evs', s'')
           | Panicked p \<Rightarrow> Panicked p
           | NotARun \<Rightarrow> NotARun)
      | Panicked p \<Rightarrow> Panicked p
      | NotARun \<Rightarrow> NotARun)"





text \<open>The reports that arrive in a run, and the reports the broadcaster receives.\<close>

definition arrivals :: "step list \<Rightarrow> broadcastResult list" where
  "arrivals xs = concat (map (\<lambda>x. case x of ReportIn br \<Rightarrow> [br] | _ \<Rightarrow> []) xs)"

definition received :: "bevent list \<Rightarrow> broadcastResult list" where
  "received evs = concat (map (\<lambda>e. case e of RecvReport br \<Rightarrow> [br] | _ \<Rightarrow> []) evs)"


definition closes :: "bevent list \<Rightarrow> chan list" where
  "closes evs = concat (map (\<lambda>e. case e of Close c \<Rightarrow> [c] | _ \<Rightarrow> []) evs)"

definition sent_to :: "bevent list \<Rightarrow> chan list" where
  "sent_to evs = concat (map (\<lambda>e. case e of Send ch f \<Rightarrow> [ch] | _ \<Rightarrow> []) evs)"

text \<open>No queue is sent on after it has been closed.\<close>

fun no_send_after_close :: "bevent list \<Rightarrow> bool" where
  "no_send_after_close [] = True"
| "no_send_after_close (Close c # evs) = (c \<notin> set (sent_to evs) \<and> no_send_after_close evs)"
| "no_send_after_close (e # evs) = no_send_after_close evs"

text \<open>
  The invariant of the state: a registered queue has been made and is open, a closed
  channel has been made, no queue is registered under two ids, the ids are those the
  search of \<open>subscribe\<close> can return, and the queue the goroutine is sending on is
  registered.
\<close>

definition binv :: "int \<Rightarrow> bstate \<Rightarrow> bool" where
  "binv maxc s \<longleftrightarrow>
     (\<forall>k c. clients (mx s) k = Some c \<longrightarrow> c < nchan s \<and> c \<notin> closed s)
     \<and> (\<forall>c \<in> closed s. c < nchan s)
     \<and> (\<forall>k k' c. clients (mx s) k = Some c \<and> clients (mx s) k' = Some c \<longrightarrow> k = k')
     \<and> dom (clients (mx s)) \<subseteq> {0..max 0 (maxc - 1)}
     \<and> (\<forall>ch. pc s = Sending ch \<longrightarrow> ch \<in> ran (clients (mx s)))"

text \<open>
  What a piece of a run from \<open>s\<close> to \<open>s'\<close> with events \<open>evs\<close> keeps: the invariant, the
  closed channels stay closed and are not sent on, without an event the registry is the
  same, and an id just deleted is free.
\<close>

definition quiet :: "int \<Rightarrow> bstate \<Rightarrow> bevent list \<Rightarrow> bstate \<Rightarrow> bool" where
  "quiet maxc s evs s' \<longleftrightarrow>
     binv maxc s' \<and> closed s \<subseteq> closed s'
     \<and> (\<forall>c \<in> closed s. c \<notin> set (sent_to evs))
     \<and> no_send_after_close evs
     \<and> (\<forall>c. Close c \<in> set evs \<longrightarrow> c \<in> closed s')
     \<and> (evs = [] \<longrightarrow> mx s' = mx s)
     \<and> (\<forall>q. evs \<noteq> [] \<and> last evs = Delete q \<longrightarrow>
            clients (mx s') q = None \<and> 0 \<le> q \<and> q \<le> max 0 (maxc - 1))"


section \<open>Discovery and shuffling\<close>

text \<open>
  \<open>os.FileInfo\<close>: the base name and the kind of file. \<open>info.Mode().IsRegular()\<close> and
  \<open>info.IsDir()\<close> read the kind.
\<close>

datatype fmode = ModeRegular | ModeDir | ModeOther

record finfo =
  fname :: string
  fmode :: fmode

definition IsRegular :: "finfo \<Rightarrow> bool" where
  "IsRegular info \<longleftrightarrow> fmode info = ModeRegular"

definition IsDir :: "finfo \<Rightarrow> bool" where
  "IsDir info \<longleftrightarrow> fmode info = ModeDir"

text \<open>
  \<open>filepath.Walk\<close> calls the function it is given once for each file and directory it
  comes to, in lexical order and without following links, either with the
  \<open>os.FileInfo\<close> or with the error of reading it. The calls it would make if the function
  never stopped it are the input of the model; the files of a directory that cannot be read
  are not among them.
\<close>

datatype entry = Entry string finfo | Unreadable string error

text \<open>
  The function \<open>start\<close> gives to \<open>filepath.Walk\<close>: the path sent on \<open>files\<close>, if any,
  and the error returned. \<open>strings.ToLower\<close> is a parameter.
  \<^verbatim>\<open>
  if err != nil { return nil }
  if !info.Mode().IsRegular() { return nil }
  probably := strings.HasSuffix(strings.ToLower(info.Name()), ".mp3") // probably mp3
  if !info.IsDir() && !probably { return nil }
  files <- wpath // found file
  return nil
  \<close>
\<close>

definition walkfn :: "(string \<Rightarrow> string) \<Rightarrow> entry \<Rightarrow> string option \<times> error option" where
  "walkfn ToLower e =
     (case e of
        Unreadable wpath werr \<Rightarrow> (None, None)
      | Entry wpath info \<Rightarrow>
          if \<not> IsRegular info then (None, None)
          else let probably = suffix ''.mp3'' (ToLower (fname info))
               in if \<not> IsDir info \<and> \<not> probably then (None, None)
                  else (Some wpath, None))"

text \<open>The function of \<open>genFileList\<close> in the older file begins with
  \<open>if err != nil { return err }\<close>.\<close>

definition walkfn_old :: "(string \<Rightarrow> string) \<Rightarrow> entry \<Rightarrow> string option \<times> error option" where
  "walkfn_old ToLower e =
     (case e of
        Unreadable path werr \<Rightarrow> (None, Some werr)
      | Entry path info \<Rightarrow>
          if \<not> IsRegular info then (None, None)
          else let ok = suffix ''.mp3'' (ToLower (fname info))
               in if \<not> IsDir info \<and> \<not> ok then (None, None)
                  else (Some path, None))"

text \<open>
  \<open>filepath.Walk\<close> on the calls: when the function returns an error, the walk stops.
  The result is the paths sent on \<open>files\<close> before \<open>close(files)\<close>.
\<close>

fun Walk :: "(entry \<Rightarrow> string option \<times> error option) \<Rightarrow> entry list \<Rightarrow> string list" where
  "Walk fn [] = []"
| "Walk fn (e # es) =
     (case fn e of
        (sent, None) \<Rightarrow> (case sent of None \<Rightarrow> Walk fn es | Some p \<Rightarrow> p # Walk fn es)
      | (sent, Some werr) \<Rightarrow> (case sent of None \<Rightarrow> [] | Some p \<Rightarrow> [p]))"

text \<open>
  For each file the \<open>select\<close> of the shuffling goroutine either takes its first case
  and sends the file on at once, or takes \<open>default\<close>, where \<open>rand.Intn\<close> draws an index.
  Which case is ready and what is drawn are inputs.
\<close>

datatype choice = Now | Later nat

text \<open>
  \<^verbatim>\<open>
  if len(shuffled) == 0 {
      shuffled = append(shuffled, f)
  } else {
      i := rand.Intn(len(shuffled))
      shuffled = append(shuffled, shuffled[i])
      shuffled[i] = f
  }
  \<close>
\<close>

definition reservoir :: "string list \<Rightarrow> string \<Rightarrow> nat \<Rightarrow> string list" where
  "reservoir shuffled f r =
     (if length shuffled = 0 then shuffled @ [f]
      else let i = r mod length shuffled
           in (shuffled @ [shuffled ! i])[i := f])"

text \<open>
  The loop \<open>for f := range files\<close> followed by \<open>for _, f := range shuffled\<close>: the paths
  sent on the play queue, in order.
\<close>

fun shuffle :: "string list \<Rightarrow> (nat \<Rightarrow> choice) \<Rightarrow> nat \<Rightarrow> string list \<Rightarrow> string list" where
  "shuffle [] pick n shuffled = shuffled"
| "shuffle (f # fs) pick n shuffled =
     (case pick n of
        Now \<Rightarrow> f # shuffle fs pick (n + 1) shuffled
      | Later r \<Rightarrow> shuffle fs pick (n + 1) (reservoir shuffled f r))"

text \<open>One scan of \<open>start\<close>, and one scan of \<open>genFileList\<close> of the older file.\<close>

definition scan :: "(string \<Rightarrow> string) \<Rightarrow> entry list \<Rightarrow> (nat \<Rightarrow> choice) \<Rightarrow> string list" where
  "scan ToLower entries pick = shuffle (Walk (walkfn ToLower) entries) pick 0 []"

definition genFileList :: "(string \<Rightarrow> string) \<Rightarrow> entry list \<Rightarrow> (nat \<Rightarrow> choice) \<Rightarrow> string list" where
  "genFileList ToLower entries pick = shuffle (Walk (walkfn_old ToLower) entries) pick 0 []"

text \<open>
  The files the specification names: the regular files the walk comes to whose lowercased
  name ends in \<open>.mp3\<close>.
\<close>

fun matching :: "(string \<Rightarrow> string) \<Rightarrow> entry list \<Rightarrow> string list" where
  "matching ToLower [] = []"
| "matching ToLower (Entry p info # es) =
     (if fmode info = ModeRegular \<and> suffix ''.mp3'' (ToLower (fname info))
      then p # matching ToLower es else matching ToLower es)"
| "matching ToLower (Unreadable p werr # es) = matching ToLower es"

text \<open>The calls of a walk before the first error.\<close>

fun before_error :: "entry list \<Rightarrow> entry list" where
  "before_error [] = []"
| "before_error (Entry p info # es) = Entry p info # before_error es"
| "before_error (Unreadable p werr # es) = []"

text \<open>Lower case on ASCII letters, for the examples.\<close>

definition ascii_lower :: "string \<Rightarrow> string" where
  "ascii_lower s =
     map (\<lambda>c. if 65 \<le> (of_char c :: nat) \<and> (of_char c :: nat) \<le> 90
              then char_of (of_char c + (32 :: nat)) else c) s"

text \<open>A root with three matching files, a text file and a directory that cannot be read.\<close>

definition example_tree :: "entry list" where
  "example_tree =
     [Entry ''/r'' \<lparr>fname = ''r'', fmode = ModeDir\<rparr>,
      Entry ''/r/a.MP3'' \<lparr>fname = ''a.MP3'', fmode = ModeRegular\<rparr>,
      Unreadable ''/r/b'' ''permission denied'',
      Entry ''/r/c.mp3'' \<lparr>fname = ''c.mp3'', fmode = ModeRegular\<rparr>,
      Entry ''/r/d.txt'' \<lparr>fname = ''d.txt'', fmode = ModeRegular\<rparr>,
      Entry ''/r/e.mp3'' \<lparr>fname = ''e.mp3'', fmode = ModeRegular\<rparr>]"

definition example_pick :: "nat \<Rightarrow> choice" where
  "example_pick n = (if n = 0 then Now else Later 0)"

section \<open>Properties of the subscriber registry\<close>

subsection \<open>What the search returns\<close>

lemma search_qid_Some_iff:
  "search_qid maxc cl i = Some q \<longleftrightarrow>
     i \<le> q \<and> cl q = None \<and> (\<forall>j. i \<le> j \<and> j < q \<longrightarrow> cl j \<noteq> None) \<and> (q = i \<or> q \<le> maxc - 1)"
proof (induction maxc cl i rule: search_qid.induct)
  case (1 maxc cl i)
  show ?case
  proof (cases "cl i = None")
    case True
    then have "search_qid maxc cl i = Some i"
      by (simp add: search_qid.simps)
    moreover have "q \<noteq> i \<Longrightarrow> i \<le> q \<Longrightarrow> \<not> (\<forall>j. i \<le> j \<and> j < q \<longrightarrow> cl j \<noteq> None)"
      using True by (auto intro: exI [of _ i])
    ultimately show ?thesis
      using True by auto
  next
    case occupied: False
    show ?thesis
    proof (cases "i \<ge> maxc - 1")
      case True
      then have "search_qid maxc cl i = None"
        using occupied by (simp add: search_qid.simps)
      moreover have "\<not> (i \<le> q \<and> cl q = None \<and> (\<forall>j. i \<le> j \<and> j < q \<longrightarrow> cl j \<noteq> None)
                        \<and> (q = i \<or> q \<le> maxc - 1))"
      proof
        assume a: "i \<le> q \<and> cl q = None \<and> (\<forall>j. i \<le> j \<and> j < q \<longrightarrow> cl j \<noteq> None)
                        \<and> (q = i \<or> q \<le> maxc - 1)"
        then have "q \<noteq> i" using occupied by auto
        then show False using a True by linarith
      qed
      ultimately show ?thesis by simp
    next
      case False
      then have unfold: "search_qid maxc cl i = search_qid maxc cl (i + 1)"
        using occupied by (simp add: search_qid.simps)
      have IH: "search_qid maxc cl (i + 1) = Some q \<longleftrightarrow>
                  i + 1 \<le> q \<and> cl q = None \<and> (\<forall>j. i + 1 \<le> j \<and> j < q \<longrightarrow> cl j \<noteq> None)
                  \<and> (q = i + 1 \<or> q \<le> maxc - 1)"
        using "1.IH" occupied False by simp
      have below: "(\<forall>j. i \<le> j \<and> j < q \<longrightarrow> cl j \<noteq> None) \<longleftrightarrow>
                     (\<forall>j. i + 1 \<le> j \<and> j < q \<longrightarrow> cl j \<noteq> None)" if "i < q"
      proof
        assume "\<forall>j. i \<le> j \<and> j < q \<longrightarrow> cl j \<noteq> None"
        then show "\<forall>j. i + 1 \<le> j \<and> j < q \<longrightarrow> cl j \<noteq> None" by auto
      next
        assume h: "\<forall>j. i + 1 \<le> j \<and> j < q \<longrightarrow> cl j \<noteq> None"
        show "\<forall>j. i \<le> j \<and> j < q \<longrightarrow> cl j \<noteq> None"
        proof (intro allI impI)
          fix j assume "i \<le> j \<and> j < q"
          then have "j = i \<or> (i + 1 \<le> j \<and> j < q)" by auto
          then show "cl j \<noteq> None" using occupied h by auto
        qed
      qed
      show ?thesis
      proof
        assume "search_qid maxc cl i = Some q"
        then have r: "i + 1 \<le> q" "cl q = None" "\<forall>j. i + 1 \<le> j \<and> j < q \<longrightarrow> cl j \<noteq> None"
          "q = i + 1 \<or> q \<le> maxc - 1"
          using unfold IH by auto
        then have "i < q" by simp
        with r below False show "i \<le> q \<and> cl q = None \<and> (\<forall>j. i \<le> j \<and> j < q \<longrightarrow> cl j \<noteq> None)
                        \<and> (q = i \<or> q \<le> maxc - 1)"
          by auto
      next
        assume a: "i \<le> q \<and> cl q = None \<and> (\<forall>j. i \<le> j \<and> j < q \<longrightarrow> cl j \<noteq> None)
                        \<and> (q = i \<or> q \<le> maxc - 1)"
        then have "q \<noteq> i" using occupied by auto
        then have "i < q" using a by simp
        then have "i + 1 \<le> q \<and> cl q = None \<and> (\<forall>j. i + 1 \<le> j \<and> j < q \<longrightarrow> cl j \<noteq> None)
                  \<and> (q = i + 1 \<or> q \<le> maxc - 1)"
          using a below \<open>q \<noteq> i\<close> by auto
        then show "search_qid maxc cl i = Some q"
          using unfold IH by simp
      qed
    qed
  qed
qed

lemma search_qid_None_iff:
  "search_qid maxc cl 0 = None \<longleftrightarrow> (\<forall>j. 0 \<le> j \<and> j \<le> max 0 (maxc - 1) \<longrightarrow> cl j \<noteq> None)"
proof
  assume none: "search_qid maxc cl 0 = None"
  show "\<forall>j. 0 \<le> j \<and> j \<le> max 0 (maxc - 1) \<longrightarrow> cl j \<noteq> None"
  proof (rule ccontr)
    assume "\<not> (\<forall>j. 0 \<le> j \<and> j \<le> max 0 (maxc - 1) \<longrightarrow> cl j \<noteq> None)"
    then obtain j where j: "0 \<le> j" "j \<le> max 0 (maxc - 1)" "cl j = None" by auto
    define S where "S = {k. 0 \<le> k \<and> k \<le> j \<and> cl k = None}"
    have "finite S" unfolding S_def
      by (rule finite_subset [of _ "{0..j}"]) auto
    moreover have "j \<in> S" using j by (simp add: S_def)
    ultimately have mn: "Min S \<in> S" "\<forall>k\<in>S. Min S \<le> k"
      by (auto intro: Min_in)
    let ?q = "Min S"
    have q: "0 \<le> ?q" "?q \<le> j" "cl ?q = None" using mn(1) by (auto simp: S_def)
    have "\<forall>k. 0 \<le> k \<and> k < ?q \<longrightarrow> cl k \<noteq> None"
    proof (intro allI impI)
      fix k assume k: "0 \<le> k \<and> k < ?q"
      show "cl k \<noteq> None"
      proof
        assume "cl k = None"
        then have "k \<in> S" using k q by (simp add: S_def)
        then show False using mn(2) k by auto
      qed
    qed
    moreover have "?q = 0 \<or> ?q \<le> maxc - 1" using q j by auto
    ultimately have "search_qid maxc cl 0 = Some ?q"
      using q by (simp add: search_qid_Some_iff)
    then show False using none by simp
  qed
next
  assume full: "\<forall>j. 0 \<le> j \<and> j \<le> max 0 (maxc - 1) \<longrightarrow> cl j \<noteq> None"
  show "search_qid maxc cl 0 = None"
  proof (cases "search_qid maxc cl 0")
    case None
    then show ?thesis .
  next
    case (Some q)
    then have "0 \<le> q" "cl q = None" "q = 0 \<or> q \<le> maxc - 1"
      by (auto simp: search_qid_Some_iff)
    then show ?thesis using full by auto
  qed
qed

subsection \<open>Ids assigned by subscribe\<close>

lemma subscribe_dom_bound:
  "dom (clients m) \<subseteq> {0..max 0 (maxc - 1)} \<Longrightarrow>
   dom (clients (snd (subscribe maxc ch m))) \<subseteq> {0..max 0 (maxc - 1)}"
  by (auto simp: subscribe_def search_qid_Some_iff split: option.splits if_splits)

lemma run_regops_dom_bound:
  "dom (clients (run_regops maxc r ops)) \<subseteq> {0..max 0 (maxc - 1)}"
proof (induction ops rule: rev_induct)
  case Nil
  show ?case by (simp add: run_regops_def start_mux_def)
next
  case (snoc x ops)
  show ?case
  proof (cases x)
    case (OpSubscribe ch)
    then show ?thesis
      using subscribe_dom_bound [OF snoc.IH, of ch] by (simp add: run_regops_def)
  next
    case (OpEvict q)
    then show ?thesis
      using snoc.IH by (auto simp: run_regops_def evict_def split: if_splits)
  qed
qed

lemma run_regops_result: "result (run_regops maxc r ops) = r"
proof (induction ops rule: rev_induct)
  case Nil
  show ?case by (simp add: run_regops_def start_mux_def)
next
  case (snoc x ops)
  then show ?case
    by (cases x) (auto simp: run_regops_def subscribe_def evict_def split: option.splits)
qed

lemma subscribe_fails_iff:
  "fst (subscribe maxc ch m) = (- 1, None) \<longleftrightarrow> search_qid maxc (clients m) 0 = None"
  by (auto simp: subscribe_def split: option.splits)

lemma full_iff_card:
  assumes "1 \<le> maxc" and "dom cl \<subseteq> {0..max 0 (maxc - 1)}"
  shows "(\<forall>j. 0 \<le> j \<and> j \<le> max 0 (maxc - 1) \<longrightarrow> cl j \<noteq> None) \<longleftrightarrow> card (dom cl) = nat maxc"
proof -
  have rng: "{0..max 0 (maxc - 1)} = {0..<maxc}" using assms(1) by auto
  have fin: "finite {0..<maxc}" by simp
  have c: "card {0..<maxc} = nat maxc" by simp
  have "(\<forall>j. 0 \<le> j \<and> j \<le> max 0 (maxc - 1) \<longrightarrow> cl j \<noteq> None) \<longleftrightarrow> {0..<maxc} \<subseteq> dom cl"
    using assms(1) by (auto simp: dom_def)
  also have "\<dots> \<longleftrightarrow> dom cl = {0..<maxc}" using assms(2) rng by auto
  also have "\<dots> \<longleftrightarrow> card (dom cl) = nat maxc"
  proof
    assume "dom cl = {0..<maxc}" then show "card (dom cl) = nat maxc" by simp
  next
    assume "card (dom cl) = nat maxc"
    then have "card (dom cl) = card {0..<maxc}" by simp
    moreover have "dom cl \<subseteq> {0..<maxc}" using assms(2) rng by simp
    ultimately show "dom cl = {0..<maxc}" using fin by (metis card_subset_eq)
  qed
  finally show ?thesis .
qed

text \<open>
  Claim C1, for a flag of at least 1. After any sequence of subscribe and evict operations
  on the registry that \<open>start\<close> made, a call of subscribe that succeeds (its id is
not negative) returns the smallest id of \<open>[0, maxConnections)\<close> that no endpoint
  is mapped to, and installs the endpoint under it.
\<close>

theorem subscribe_smallest_free:
  assumes "1 \<le> maxc" and "m = run_regops maxc r ops"
    and "fst (subscribe maxc ch m) = (q, res)" and "0 \<le> q"
  shows "in_id_range maxc q \<and> clients m q = None
         \<and> (\<forall>j. in_id_range maxc j \<and> clients m j = None \<longrightarrow> q \<le> j)
         \<and> clients (snd (subscribe maxc ch m)) q = Some ch"
proof -
  from assms(3,4) have s: "search_qid maxc (clients m) 0 = Some q"
    by (auto simp: subscribe_def split: option.splits)
  then have f: "cl q = None" "\<forall>j. 0 \<le> j \<and> j < q \<longrightarrow> cl j \<noteq> None" "q = 0 \<or> q \<le> maxc - 1"
    if "cl = clients m" for cl
    using that by (auto simp: search_qid_Some_iff)
  have "q < maxc" using f(3) assms(1) by auto
  moreover have "\<forall>j. in_id_range maxc j \<and> clients m j = None \<longrightarrow> q \<le> j"
    using f(2) by (force simp: in_id_range_def)
  moreover have "clients (snd (subscribe maxc ch m)) q = Some ch"
    using s by (simp add: subscribe_def)
  ultimately show ?thesis
    using f(1) assms(4) by (simp add: in_id_range_def)
qed

lemma run3: "run_regops 3 0 [OpSubscribe 5, OpSubscribe 6, OpEvict 0] = \<lparr>clients = [1 \<mapsto> 6], result = 0\<rparr>"
  by (simp add: run_regops_def start_mux_def subscribe_def evict_def search_qid.simps fun_upd_twist)

theorem subscribe_smallest_free_witness:
  "fst (subscribe 3 7 (run_regops 3 0 [OpSubscribe 5, OpSubscribe 6, OpEvict 0])) = (0, Some 0)
   \<and> in_id_range 3 0
   \<and> clients (run_regops 3 0 [OpSubscribe 5, OpSubscribe 6, OpEvict 0]) 0 = None
   \<and> clients (snd (subscribe 3 7 (run_regops 3 0 [OpSubscribe 5, OpSubscribe 6, OpEvict 0]))) 0 = Some 7"
proof -
  have a: "(1::int) \<le> 3" by simp
  have b: "fst (subscribe 3 7 (run_regops 3 0 [OpSubscribe 5, OpSubscribe 6, OpEvict 0])) = (0, Some 0)"
    by (simp add: run3 subscribe_def search_qid.simps)
  have c: "(0::int) \<le> 0" by simp
  show ?thesis
    using subscribe_smallest_free [OF a refl b c] b by simp
qed

text \<open>
  The flag is not validated: with \<open>-max 0\<close> the first subscribe finds id 0 free before
  the bound is ever tested, and returns 0, which is outside the empty range \<open>[0, 0)\<close>.
\<close>

theorem subscribe_id_range_counterexample:
  "fst (subscribe 0 5 (run_regops 0 0 [])) = (0, Some 0) \<and> \<not> in_id_range 0 0"
  by (simp add: run_regops_def start_mux_def subscribe_def search_qid.simps in_id_range_def)

text \<open>
  Claim C2, with the count the code tests. For a flag of at least 1 and after any sequence
  of subscribe and evict operations, subscribe returns the failure sentinel \<open>(-1, nil)\<close>
  if and only if exactly maxConnections distinct ids are occupied, and then leaves the
  registry as it was; otherwise it installs the endpoint under a free id of the range and
  returns that id with the shared result channel.
\<close>

theorem subscribe_fails_iff_full:
  assumes "1 \<le> maxc" and "m = run_regops maxc r ops"
  shows "(fst (subscribe maxc ch m) = (- 1, None) \<longleftrightarrow> card (dom (clients m)) = nat maxc)
       \<and> (fst (subscribe maxc ch m) = (- 1, None) \<longrightarrow> snd (subscribe maxc ch m) = m)
       \<and> (fst (subscribe maxc ch m) \<noteq> (- 1, None) \<longrightarrow>
            (\<exists>q. in_id_range maxc q \<and> clients m q = None
               \<and> subscribe maxc ch m = ((q, Some (result m)), m\<lparr>clients := (clients m)(q \<mapsto> ch)\<rparr>)))"
proof -
  have bound: "dom (clients m) \<subseteq> {0..max 0 (maxc - 1)}"
    using assms(2) run_regops_dom_bound by simp
  have "fst (subscribe maxc ch m) = (- 1, None) \<longleftrightarrow> card (dom (clients m)) = nat maxc"
    using full_iff_card [OF assms(1) bound]
    by (simp add: subscribe_fails_iff search_qid_None_iff)
  moreover have "fst (subscribe maxc ch m) = (- 1, None) \<longrightarrow> snd (subscribe maxc ch m) = m"
    by (auto simp: subscribe_def split: option.splits)
  moreover have "fst (subscribe maxc ch m) \<noteq> (- 1, None) \<longrightarrow>
            (\<exists>q. in_id_range maxc q \<and> clients m q = None
               \<and> subscribe maxc ch m = ((q, Some (result m)), m\<lparr>clients := (clients m)(q \<mapsto> ch)\<rparr>))"
  proof
    assume "fst (subscribe maxc ch m) \<noteq> (- 1, None)"
    then obtain q where s: "search_qid maxc (clients m) 0 = Some q"
      by (auto simp: subscribe_def split: option.splits)
    then have "0 \<le> q" "clients m q = None" "q = 0 \<or> q \<le> maxc - 1"
      by (auto simp: search_qid_Some_iff)
    then have "in_id_range maxc q \<and> clients m q = None"
      using assms(1) by (auto simp: in_id_range_def)
    then show "\<exists>q. in_id_range maxc q \<and> clients m q = None
               \<and> subscribe maxc ch m = ((q, Some (result m)), m\<lparr>clients := (clients m)(q \<mapsto> ch)\<rparr>)"
      using s by (auto simp: subscribe_def)
  qed
  ultimately show ?thesis by blast
qed

lemma run2: "run_regops 2 0 [OpSubscribe 5] = \<lparr>clients = [0 \<mapsto> 5], result = 0\<rparr>"
  by (simp add: run_regops_def start_mux_def subscribe_def search_qid.simps)

lemma run2full: "run_regops 2 0 [OpSubscribe 5, OpSubscribe 6] = \<lparr>clients = [0 \<mapsto> 5, 1 \<mapsto> 6], result = 0\<rparr>"
  by (simp add: run_regops_def start_mux_def subscribe_def search_qid.simps)

theorem subscribe_fails_iff_full_witness:
  "fst (subscribe 2 3 (run_regops 2 0 [OpSubscribe 5, OpSubscribe 6])) = (- 1, None)
   \<and> card (dom (clients (run_regops 2 0 [OpSubscribe 5, OpSubscribe 6]))) = nat 2
   \<and> snd (subscribe 2 3 (run_regops 2 0 [OpSubscribe 5, OpSubscribe 6])) = run_regops 2 0 [OpSubscribe 5, OpSubscribe 6]"
proof -
  have a: "(1::int) \<le> 2" by simp
  have b: "fst (subscribe 2 3 (run_regops 2 0 [OpSubscribe 5, OpSubscribe 6])) = (- 1, None)"
    by (simp add: run2full subscribe_def search_qid.simps)
  show ?thesis
    using subscribe_fails_iff_full [OF a refl, of 3 0 "[OpSubscribe 5, OpSubscribe 6]"] b by simp
qed

text \<open>
  With \<open>-max 2\<close> and one endpoint subscribed, exactly maxConnections - 1 ids are occupied
  and subscribe succeeds with id 1.
\<close>

theorem subscribe_fails_counterexample:
  "card (dom (clients (run_regops 2 0 [OpSubscribe 5]))) = nat (2 - 1)
   \<and> fst (subscribe 2 2 (run_regops 2 0 [OpSubscribe 5])) = (1, Some 0)"
  by (simp add: run2 subscribe_def search_qid.simps)

section \<open>Properties of the tag stripping\<close>

lemma low_or_high_nat:
  fixes x y :: nat
  assumes "x < 2 ^ n"
  shows "x OR push_bit n y = x + push_bit n y"
proof -
  have x: "take_bit n x = x" using assms by (simp add: take_bit_nat_eq_self)
  have "\<not> bit x k \<or> \<not> bit (push_bit n y) k" for k
  proof (cases "n \<le> k")
    case True
    have "bit x k = bit (take_bit n x) k" using x by simp
    also have "\<dots> = False" using True by (simp add: bit_take_bit_iff)
    finally show ?thesis by simp
  next
    case False
    then show ?thesis by (simp add: bit_push_bit_iff)
  qed
  then show ?thesis by (rule disjunctive_add [symmetric])
qed

lemma unat_or_bytes:
  fixes b6 b7 b8 b9 :: byte
  shows "unat (push_bit 21 (ucast b6) OR push_bit 14 (ucast b7) OR push_bit 7 (ucast b8) OR ucast b9 :: 32 word)
         = push_bit 21 (unat b6) OR push_bit 14 (unat b7) OR push_bit 7 (unat b8) OR unat b9"
proof -
  have small: "take_bit 32 (push_bit k (unat b)) = push_bit k (unat b)" if "k \<le> 21" for k and b :: byte
  proof -
    have "unat b < 2 ^ 8" using unsigned_less [of b] by simp
    then have "unat b * 2 ^ k < 2 ^ 8 * 2 ^ k" by simp
    also have "\<dots> = 2 ^ (8 + k)" by (simp add: power_add)
    also have "\<dots> \<le> (2::nat) ^ 32" using that by (intro power_increasing) auto
    finally show ?thesis by (simp add: take_bit_nat_eq_self push_bit_eq_mult)
  qed
  have uc: "unat (ucast b :: 32 word) = unat b" for b :: byte
    by (simp add: unsigned_ucast_eq take_bit_nat_eq_self
        order_less_le_trans [OF unsigned_less [of b] ])
  show ?thesis
    by (simp add: unsigned_or_eq unsigned_push_bit_eq uc small)
qed

lemma or_bytes_syncsafe:
  fixes b6 b7 b8 b9 :: byte
  assumes "b6 < 128" "b7 < 128" "b8 < 128" "b9 < 128"
  shows "push_bit 21 (unat b6) OR push_bit 14 (unat b7) OR push_bit 7 (unat b8) OR unat b9
         = syncsafe b6 b7 b8 b9"
proof -
  have lt: "unat b6 < 2 ^ 7" "unat b7 < 2 ^ 7" "unat b8 < 2 ^ 7" "unat b9 < 2 ^ 7"
    using assms by (simp_all add: word_less_nat_alt)
  define n1 where "n1 = unat b7 OR push_bit 7 (unat b6)"
  define n2 where "n2 = unat b8 OR push_bit 7 n1"
  define n3 where "n3 = unat b9 OR push_bit 7 n2"
  have "push_bit 21 (unat b6) OR push_bit 14 (unat b7) OR push_bit 7 (unat b8) OR unat b9 = n3"
    by (simp add: n1_def n2_def n3_def ac_simps)
  moreover have "n1 = unat b7 + unat b6 * 2 ^ 7"
    unfolding n1_def using low_or_high_nat [OF lt(2)] by (simp add: push_bit_eq_mult)
  moreover have "n2 = unat b8 + n1 * 2 ^ 7"
    unfolding n2_def using low_or_high_nat [OF lt(3)] by (simp add: push_bit_eq_mult)
  moreover have "n3 = unat b9 + n2 * 2 ^ 7"
    unfolding n3_def using low_or_high_nat [OF lt(4)] by (simp add: push_bit_eq_mult)
  ultimately show ?thesis
    using lt by (simp add: syncsafe_def)
qed

lemma or_bytes_bound:
  fixes b6 b7 b8 b9 :: byte
  shows "push_bit 21 (unat b6) OR push_bit 14 (unat b7) OR push_bit 7 (unat b8) OR unat b9 < 2 ^ 29"
proof -
  have b: "unat b < 2 ^ 8" for b :: byte using unsigned_less [of b] by simp
  have p: "push_bit k (unat b) < 2 ^ 29" if "k \<le> 21" for k and b :: byte
  proof -
    have "unat b * 2 ^ k < 2 ^ 8 * 2 ^ k" using b by simp
    also have "\<dots> = 2 ^ (8 + k)" by (simp add: power_add)
    also have "\<dots> \<le> (2::nat) ^ 29" using that by (intro power_increasing) auto
    finally show ?thesis by (simp add: push_bit_eq_mult)
  qed
  have "unat b9 < 2 ^ 29" using b [of b9] by simp
  then have "take_bit 29 (push_bit 21 (unat b6) OR push_bit 14 (unat b7) OR push_bit 7 (unat b8) OR unat b9)
             = push_bit 21 (unat b6) OR push_bit 14 (unat b7) OR push_bit 7 (unat b8) OR unat b9"
    using p [of 21 b6] p [of 14 b7] p [of 7 b8]
    by (simp only: take_bit_or take_bit_nat_eq_self)
  then show ?thesis
    by (simp only: take_bit_nat_eq_self_iff)
qed

lemma unat_decode_size:
  "unat (decode_size b6 b7 b8 b9)
   = push_bit 21 (unat b6) OR push_bit 14 (unat b7) OR push_bit 7 (unat b8) OR unat b9"
  unfolding decode_size_def by (rule unat_or_bytes)

lemma decode_size_bound: "unat (decode_size b6 b7 b8 b9) < 2 ^ 29"
  unfolding unat_decode_size by (rule or_bytes_bound)

lemma sint_id3size:
  "sint (decode_size b6 b7 b8 b9 + 10) = int (unat (decode_size b6 b7 b8 b9)) + 10"
proof -
  let ?w = "decode_size b6 b7 b8 b9"
  have n: "unat ?w < 2 ^ 29" by (rule decode_size_bound)
  have "unat (?w + 10) = (unat ?w + 10) mod 2 ^ 32"
    by (simp add: unat_word_ariths)
  also have "\<dots> = unat ?w + 10" using n by simp
  finally have u: "unat (?w + 10) = unat ?w + 10" .
  have "uint (?w + 10) = int (unat (?w + 10))" by simp
  also have "\<dots> = int (unat ?w) + 10" by (simp only: u of_nat_add of_nat_numeral)
  finally have v: "uint (?w + 10) = int (unat ?w) + 10" .
  have "int (unat ?w) < int (2 ^ 29)" using n by (simp only: of_nat_less_iff)
  then have "int (unat ?w) + 10 < 2 ^ 31" by (simp del: of_nat_unat)
  moreover have "0 \<le> int (unat ?w) + 10" by (simp del: of_nat_unat)
  ultimately have "signed_take_bit 31 (int (unat ?w) + 10) = int (unat ?w) + 10"
    by (intro signed_take_bit_int_eq_self) simp_all
  then show ?thesis
    by (simp only: sint_uint v) simp
qed

lemma declared_size_syncsafe:
  "valid_syncsafe b \<Longrightarrow> declared_size b = tag_size b"
  by (simp add: valid_syncsafe_def declared_size_def tag_size_def unat_decode_size or_bytes_syncsafe)

lemma stripID3Header_marker:
  assumes "wf_slice buf" and "take 3 (backing buf) = ID3"
  shows "stripID3Header (buf, None) =
           (if 10 \<le> slen buf \<and> 10 + declared_size buf \<le> slen buf
            then Inr (drop (10 + declared_size buf) (contents buf))
            else if 10 \<le> slen buf then Inl SliceBoundsOutOfRange else Inl IndexOutOfRange)"
proof -
  have "length (take 3 (backing buf)) = 3"
    using assms(2) by (simp add: ID3_def)
  then have cap: "3 \<le> length (backing buf)" by simp
  have head: "slice_upto buf 3 = Inr ID3"
    using cap assms(2) by (simp add: slice_upto_def)
  let ?w = "decode_size (backing buf ! 6) (backing buf ! 7) (backing buf ! 8) (backing buf ! 9)"
  have s: "sint (?w + 10) = int (10 + declared_size buf)"
    by (simp add: sint_id3size declared_size_def)
  show ?thesis
  proof (cases "10 \<le> slen buf")
    case True
    then have idx: "index buf 6 = Inr (backing buf ! 6)" "index buf 7 = Inr (backing buf ! 7)"
      "index buf 8 = Inr (backing buf ! 8)" "index buf 9 = Inr (backing buf ! 9)"
      by (simp_all add: index_def)
    have "stripID3Header (buf, None) = slice_from buf (sint (?w + 10))"
      by (simp add: stripID3Header_def head idx pbind_def Let_def)
    also have "\<dots> = slice_from buf (int (10 + declared_size buf))"
      by (simp only: s)
    also have "\<dots> = (if 10 + declared_size buf \<le> slen buf
                      then Inr (drop (10 + declared_size buf) (contents buf))
                      else Inl SliceBoundsOutOfRange)"
      unfolding slice_from_def by (simp only: of_nat_0_le_iff nat_int simp_thms)
    finally show ?thesis using True by simp
  next
    case False
    then consider "slen buf \<le> 6" | "slen buf = 7" | "slen buf = 8" | "slen buf = 9"
      by linarith
    then have "stripID3Header (buf, None) = Inl IndexOutOfRange"
    proof cases
      case 1
      then show ?thesis by (simp add: stripID3Header_def head index_def pbind_def)
    next
      case 2
      then show ?thesis by (simp add: stripID3Header_def head index_def pbind_def)
    next
      case 3
      then show ?thesis by (simp add: stripID3Header_def head index_def pbind_def)
    next
      case 4
      then show ?thesis by (simp add: stripID3Header_def head index_def pbind_def)
    qed
    then show ?thesis using False by simp
  qed
qed

lemma stripID3Header_no_marker:
  assumes "3 \<le> length (backing buf)" and "take 3 (backing buf) \<noteq> ID3"
  shows "stripID3Header (buf, None) = Inr (contents buf)"
  using assms by (simp add: stripID3Header_def slice_upto_def pbind_def)

lemma stripID3Header_short_cap:
  assumes "length (backing buf) < 3"
  shows "stripID3Header (buf, None) = Inl SliceBoundsOutOfRange"
  using assms by (simp add: stripID3Header_def slice_upto_def pbind_def)

lemma take3_contents:
  "3 \<le> slen buf \<Longrightarrow> take 3 (contents buf) = take 3 (backing buf)"
  by (simp add: contents_def min_def)

text \<open>
  Claim C3, with the conditions the code needs. For a buffer that begins with the marker
  \<open>ID3\<close>, has at least 10 bytes, whose four size bytes have their high bit clear, and
  whose tag fits (10 plus the syncsafe size is at most the length), \<open>stripID3Header\<close>
  returns the suffix of the buffer from offset 10 plus that size. For a buffer of capacity
  at least 3 whose first three bytes differ from the marker, the output is the input,
  byte for byte.
\<close>

theorem stripID3Header_strips:
  assumes "wf_slice buf"
  shows "(take 3 (contents buf) = ID3 \<and> 10 \<le> slen buf \<and> valid_syncsafe buf
            \<and> 10 + tag_size buf \<le> slen buf
          \<longrightarrow> stripID3Header (buf, None) = Inr (drop (10 + tag_size buf) (contents buf)))
       \<and> (3 \<le> length (backing buf) \<and> take 3 (backing buf) \<noteq> ID3
          \<longrightarrow> stripID3Header (buf, None) = Inr (contents buf))"
proof (intro conjI impI)
  assume a: "take 3 (contents buf) = ID3 \<and> 10 \<le> slen buf \<and> valid_syncsafe buf
            \<and> 10 + tag_size buf \<le> slen buf"
  then have "3 \<le> slen buf" by simp
  with a have "take 3 (backing buf) = ID3" by (simp add: take3_contents)
  then show "stripID3Header (buf, None) = Inr (drop (10 + tag_size buf) (contents buf))"
    using a stripID3Header_marker [OF assms] by (simp add: declared_size_syncsafe)
next
  assume "3 \<le> length (backing buf) \<and> take 3 (backing buf) \<noteq> ID3"
  then show "stripID3Header (buf, None) = Inr (contents buf)"
    by (simp add: stripID3Header_no_marker)
qed

text \<open>
  Claim C10, with the bound Go checks. \<open>stripID3Header\<close> is not total: on a slice it
  panics exactly when the read succeeded and either the capacity is below 3, or the first
  three bytes are the marker and the buffer has fewer than 10 bytes or fewer than 10 plus
  the size it declares. Everywhere else it returns.
\<close>

theorem stripID3Header_panics_iff:
  assumes "wf_slice buf"
  shows "is_panic (stripID3Header (buf, e)) \<longleftrightarrow>
           e = None \<and> (length (backing buf) < 3
             \<or> (take 3 (backing buf) = ID3 \<and> (slen buf < 10 \<or> slen buf < 10 + declared_size buf)))"
proof (cases e)
  case (Some a)
  then show ?thesis by (simp add: stripID3Header_def is_panic_def)
next
  case None
  show ?thesis
  proof (cases "length (backing buf) < 3")
    case True
    then show ?thesis using None by (simp add: stripID3Header_short_cap is_panic_def)
  next
    case cap: False
    show ?thesis
    proof (cases "take 3 (backing buf) = ID3")
      case True
      then show ?thesis
        using None cap stripID3Header_marker [OF assms True] by (auto simp: is_panic_def)
    next
      case False
      then show ?thesis
        using None cap stripID3Header_no_marker [of buf] by (simp add: is_panic_def)
    qed
  qed
qed


lemma three_bytes_marker:
  "stripID3Header (\<lparr>backing = [0x49, 0x44, 0x33] @ replicate 509 0, slen = 3\<rparr>, None)
   = Inl IndexOutOfRange"
  by (simp add: stripID3Header_def slice_upto_def ID3_def pbind_def index_def)

theorem stripID3Header_strips_witness:
  "stripID3Header (\<lparr>backing = [0x49, 0x44, 0x33, 3, 0, 0, 0, 0, 0, 2, 0xAA, 0xBB, 0xFF, 0xFB],
                     slen = 14\<rparr>, None) = Inr [0xFF, 0xFB]
   \<and> stripID3Header (\<lparr>backing = [0xFF, 0xFB, 0x90, 0x64], slen = 4\<rparr>, None)
       = Inr [0xFF, 0xFB, 0x90, 0x64]"
proof -
  let ?a = "\<lparr>backing = [0x49, 0x44, 0x33, 3, 0, 0, 0, 0, 0, 2, 0xAA, 0xBB, 0xFF, 0xFB :: byte],
              slen = 14\<rparr>"
  let ?b = "\<lparr>backing = [0xFF, 0xFB, 0x90, 0x64 :: byte], slen = 4\<rparr>"
  have wa: "wf_slice ?a" and wb: "wf_slice ?b" by (simp_all add: wf_slice_def)
  have ts: "tag_size ?a = 2" by (simp add: tag_size_def syncsafe_def)
  have ha: "take 3 (contents ?a) = ID3 \<and> 10 \<le> slen ?a \<and> valid_syncsafe ?a
            \<and> 10 + tag_size ?a \<le> slen ?a"
    by (simp add: ts contents_def ID3_def valid_syncsafe_def)
  have hb: "3 \<le> length (backing ?b) \<and> take 3 (backing ?b) \<noteq> ID3"
    by (simp add: ID3_def)
  have "stripID3Header (?a, None) = Inr (drop (10 + tag_size ?a) (contents ?a))"
    using stripID3Header_strips [OF wa] ha by blast
  moreover have "stripID3Header (?b, None) = Inr (contents ?b)"
    using stripID3Header_strips [OF wb] hb by blast
  ultimately show ?thesis by (simp add: ts contents_def)
qed

text \<open>
  A file that is just the three marker bytes begins with the marker, and the read of
  \<open>buf[6]\<close> panics: no suffix is returned. A size byte \<open>0x80\<close> contributes its high bit:
  the code skips 10 + 128 bytes where the 7-bit reading of the field gives size 0.
\<close>

theorem stripID3Header_strips_counterexample:
  "take 3 (contents \<lparr>backing = [0x49, 0x44, 0x33] @ replicate 509 0, slen = 3\<rparr>) = ID3
   \<and> stripID3Header (\<lparr>backing = [0x49, 0x44, 0x33] @ replicate 509 0, slen = 3\<rparr>, None)
       = Inl IndexOutOfRange
   \<and> tag_size \<lparr>backing = [0x49, 0x44, 0x33, 3, 0, 0, 0, 0, 0, 0x80] @ replicate 128 0 @ [0xFF],
               slen = 139\<rparr> = 0
   \<and> stripID3Header (\<lparr>backing = [0x49, 0x44, 0x33, 3, 0, 0, 0, 0, 0, 0x80] @ replicate 128 0 @ [0xFF],
                       slen = 139\<rparr>, None) = Inr [0xFF]"
proof -
  let ?d = "\<lparr>backing = [0x49, 0x44, 0x33, 3, 0, 0, 0, 0, 0, 0x80 :: byte] @ replicate 128 0 @ [0xFF],
              slen = 139\<rparr>"
  have wd: "wf_slice ?d" by (simp add: wf_slice_def)
  have md: "take 3 (backing ?d) = ID3" by (simp add: ID3_def)
  have ds: "declared_size ?d = 128" by (simp add: declared_size_def decode_size_def)
  have sd: "slen ?d = 139" by simp
  have "stripID3Header (?d, None) = Inr (drop 138 (contents ?d))"
    unfolding stripID3Header_marker [OF wd md] ds sd by simp
  then have "stripID3Header (?d, None) = Inr [0xFF]" by (simp add: contents_def)
  moreover have "tag_size ?d = 0" by (simp add: tag_size_def syncsafe_def)
  ultimately show ?thesis
    using three_bytes_marker by (simp add: contents_def ID3_def)
qed

theorem stripID3Header_panics_iff_witness:
  "is_panic (stripID3Header (\<lparr>backing = [0x49, 0x44, 0x33] @ replicate 509 0, slen = 3\<rparr>, None))
   \<and> is_panic (stripID3Header (\<lparr>backing = [0xFF, 0xFB], slen = 2\<rparr>, None))"
proof -
  let ?c = "\<lparr>backing = [0x49, 0x44, 0x33 :: byte] @ replicate 509 0, slen = 3\<rparr>"
  let ?e = "\<lparr>backing = [0xFF, 0xFB :: byte], slen = 2\<rparr>"
  have wc: "wf_slice ?c" and we: "wf_slice ?e" by (simp_all add: wf_slice_def)
  have "take 3 (backing ?c) = ID3 \<and> slen ?c < 10" by (simp add: ID3_def)
  then have "is_panic (stripID3Header (?c, None))"
    using stripID3Header_panics_iff [OF wc, of None] by blast
  moreover have "length (backing ?e) < 3" by simp
  then have "is_panic (stripID3Header (?e, None))"
    using stripID3Header_panics_iff [OF we, of None] by blast
  ultimately show ?thesis by simp
qed

text \<open>
  \<open>ioutil.ReadAll\<close> returns a slice of capacity at least 512 (\<open>bytes.MinRead\<close>), the
  spare bytes zero. On an empty file, or a file of two bytes, \<open>buf[:3]\<close> is within the
  capacity and the buffer is returned unchanged: fewer than 3 bytes, and no panic.
\<close>

theorem stripID3Header_short_buffer_counterexample:
  "length (contents \<lparr>backing = replicate 512 0, slen = 0\<rparr>) < 3
   \<and> stripID3Header (\<lparr>backing = replicate 512 0, slen = 0\<rparr>, None) = Inr []
   \<and> length (contents \<lparr>backing = [0xFF, 0xFB] @ replicate 510 0, slen = 2\<rparr>) < 3
   \<and> stripID3Header (\<lparr>backing = [0xFF, 0xFB] @ replicate 510 0, slen = 2\<rparr>, None)
       = Inr [0xFF, 0xFB]"
proof -
  have "take 3 (replicate 512 (0::byte)) = [0, 0, 0]"
    by (simp add: numeral_3_eq_3)
  then have "stripID3Header (\<lparr>backing = replicate 512 0, slen = 0\<rparr>, None) = Inr []"
    by (simp add: stripID3Header_def slice_upto_def ID3_def pbind_def contents_def)
  then show ?thesis
    by (simp add: stripID3Header_def slice_upto_def ID3_def pbind_def contents_def)
qed

section \<open>Properties of the pacing\<close>

lemma decode_stream_pace: "decode_stream ds c = pace c (frames_of_stream ds)"
  by (induction ds c rule: decode_stream.induct) (simp_all add: Let_def case_prod_beta)

lemma pace_append:
  "pace a (xs @ ys) =
     (fst (pace a xs) @ fst (pace (snd (pace a xs)) ys), snd (pace (snd (pace a xs)) ys))"
  by (induction a xs rule: pace.induct) (simp_all add: Let_def)

lemma decode_frames_pace: "decode_frames ss c = pace c (frames_of ss)"
proof (induction ss arbitrary: c)
  case Nil
  show ?case by (simp add: frames_of_def)
next
  case (Cons s ss)
  have fr: "frames_of (s # ss) = frames_of_stream s @ frames_of ss"
    by (simp add: frames_of_def)
  show ?case
    unfolding fr pace_append
    by (simp add: case_prod_beta decode_stream_pace Cons)
qed

lemma decode_stream_old_pace: "decode_stream_old ds = pace_per_frame (frames_of_stream ds)"
  by (induction ds rule: decode_stream_old.induct) (simp_all add: Let_def pace_per_frame_def)

lemma decode_frames_old_pace: "decode_frames_old ss = pace_per_frame (frames_of ss)"
  by (induction ss)
     (simp_all add: decode_frames_old_def frames_of_def decode_stream_old_pace pace_per_frame_def)

lemma pace_bound:
  "sint acc \<le> sint Second \<Longrightarrow> sint (snd (pace acc fs)) \<le> sint Second"
  by (induction acc fs rule: pace.induct) (auto simp: Let_def Second_def)

lemma pace_sleeps_long:
  "d \<in> set (sleeps (fst (pace acc fs))) \<Longrightarrow> sint Second < sint d"
  by (induction acc fs rule: pace.induct) (auto simp: Let_def sleeps_def split: if_splits)

text \<open>
  Claim C4, for the two decoding loops of the repository. In the loop with the accumulator
  \<open>cumwait\<close>, for every sequence of decoder results, the frames handed on and the sleeps
  are those of the pacing algorithm run on the decoded frames: per frame the slack
  (duration minus cost) is added to the accumulator, which may go negative; when the
  accumulator exceeds one second the loop sleeps for the accumulated amount and the
  accumulator becomes zero; so every sleep is longer than one second and the accumulator
  is at most one second after each run. The older loop sleeps after each frame for that
  frame's slack when it is positive.
\<close>

theorem pacing_accumulates:
  "decode_frames ss 0 = pace 0 (frames_of ss)
   \<and> (\<forall>d \<in> set (sleeps (fst (decode_frames ss 0))). sint Second < sint d)
   \<and> sint (snd (decode_frames ss 0)) \<le> sint Second
   \<and> decode_frames_old ss = pace_per_frame (frames_of ss)"
proof -
  have "sint (0 :: Duration) \<le> sint Second" by (simp add: Second_def)
  then have "sint (snd (pace 0 (frames_of ss))) \<le> sint Second" by (rule pace_bound)
  moreover have "\<forall>d \<in> set (sleeps (fst (pace 0 (frames_of ss)))). sint Second < sint d"
    using pace_sleeps_long by blast
  ultimately show ?thesis
    by (simp only: decode_frames_pace decode_frames_old_pace simp_thms)
qed
lemma pacing_example:
  "decode_frames [ [Decoded [1] 600000000 0, DecodeError, Decoded [2] 600000000 0, DecodeEOF],
                  [Decoded [3] 600000000 100000000] ] 0
   = ([Emit [1], Emit [2], Sleep 1200000000, Emit [3] ], 500000000)"
  by (simp add: Second_def)

theorem pacing_accumulates_witness:
  "decode_frames [ [Decoded [1] 600000000 0, DecodeError, Decoded [2] 600000000 0, DecodeEOF],
                  [Decoded [3] 600000000 100000000] ] 0
   = ([Emit [1], Emit [2], Sleep 1200000000, Emit [3] ], 500000000)
   \<and> sint Second < sint (1200000000 :: Duration)"
proof -
  let ?ss = "[ [Decoded [1] 600000000 0, DecodeError, Decoded [2] 600000000 0, DecodeEOF],
                  [Decoded [3] 600000000 100000000] ]"
  have sl: "sleeps (fst (decode_frames ?ss 0)) = [1200000000]"
    unfolding pacing_example by (simp add: sleeps_def)
  have "\<forall>d \<in> set (sleeps (fst (decode_frames ?ss 0))). sint Second < sint d"
    using pacing_accumulates [of ?ss] by (rule conjunct2 [THEN conjunct1])
  then have "\<forall>d \<in> set [1200000000 :: Duration]. sint Second < sint d"
    unfolding sl .
  then have long: "sint Second < sint (1200000000 :: Duration)"
    by (simp only: list.set ball_simps simp_thms)
  show ?thesis
  proof (intro conjI)
    show "decode_frames ?ss 0 = ([Emit [1], Emit [2], Sleep 1200000000, Emit [3] ], 500000000)"
      by (rule pacing_example)
    show "sint Second < sint (1200000000 :: Duration)"
      by (rule long)
  qed
qed

text \<open>
  A frame of 26 ms produced in 1 ms: the older loop sleeps 25 ms, though the accumulated
  slack is far below one second and the algorithm of the claim does not sleep.
\<close>

theorem pacing_old_counterexample:
  "decode_frames_old [ [Decoded [1] 26000000 1000000, DecodeEOF] ] = [Emit [1], Sleep 25000000]
   \<and> pace 0 [([1], 26000000, 1000000)] = ([Emit [1] ], 25000000)"
  by (simp add: decode_frames_old_def Second_def)

section \<open>Properties of the client session\<close>

lemma subscribe_first: "subscribe 42 7 (start_mux 0) = ((0, Some 0), \<lparr>clients = [0 \<mapsto> 7], result = 0\<rparr>)"
  by (simp add: subscribe_def search_qid.simps start_mux_def)

lemma calls_of_simps [simp]:
  "calls_of [] = []"
  "calls_of (Call c # evs) = c # calls_of evs"
  "calls_of (Receive b # evs) = calls_of evs"
  "calls_of (Report br r # evs) = calls_of evs"
  "calls_of (LogDenied # evs) = calls_of evs"
  "calls_of (xs @ ys) = calls_of xs @ calls_of ys"
  by (simp_all add: calls_of_def)

lemma reports_of_simps [simp]:
  "reports_of [] = []"
  "reports_of (Call c # evs) = reports_of evs"
  "reports_of (Receive b # evs) = reports_of evs"
  "reports_of (Report br r # evs) = r # reports_of evs"
  "reports_of (LogDenied # evs) = reports_of evs"
  "reports_of (xs @ ys) = reports_of xs @ reports_of ys"
  by (simp_all add: reports_of_def)

lemma received_of_simps [simp]:
  "received_of [] = []"
  "received_of (Call c # evs) = received_of evs"
  "received_of (Receive b # evs) = b # received_of evs"
  "received_of (Report br r # evs) = received_of evs"
  "received_of (LogDenied # evs) = received_of evs"
  "received_of (xs @ ys) = received_of xs @ received_of ys"
  by (simp_all add: received_of_def)

lemma calls_of_map_Call [simp]: "calls_of (map Call cs) = cs"
  by (induction cs) simp_all

lemma reports_of_map_Call [simp]: "reports_of (map Call cs) = []"
  by (induction cs) simp_all

lemma received_of_map_Call [simp]: "received_of (map Call cs) = []"
  by (induction cs) simp_all


lemma stream_loop_received:
  "received_of (fst (stream_loop q br fs)) = map fst (taken fs)"
  by (induction q br fs rule: stream_loop.induct) (simp_all add: case_prod_beta)



text \<open>
  The trace of the loop, with the last report when the loop is left, is the trace the
  specification asks for as long as no goroutine assigns \<open>err\<close> between the handler's
  assignment in the timeout branch and the handler's last read.
\<close>

lemma stream_loop_in_step:
  "\<not> list_ex (\<lambda>(buf, out). raced out) (taken fs) \<Longrightarrow>
   fst (stream_loop q br fs)
     @ (case snd (stream_loop q br fs) of Exited v \<Rightarrow> [Report br \<lparr>qid = q, err = v\<rparr>] | _ \<Rightarrow> [])
   = in_step q br fs"
  by (induction q br fs rule: stream_loop.induct)
     (simp_all add: case_prod_beta in_step_def report_for_def)

lemma session_in_step:
  assumes "fst (subscribe maxc frames m) = (q, br)" and "0 \<le> q"
    and "\<not> list_ex (\<lambda>(buf, out). raced out) (taken fs)"
  shows "fst (ServeHTTP maxc now frames None fs m)
         = [Call (WriteHeader 200),
            Call (HeaderSet ''Date'' now),
            Call (HeaderSet ''Connection'' ''Keep-Alive''),
            Call (HeaderSet ''Cache-Control'' ''no-cache''),
            Call (HeaderSet ''Content-Type'' ''audio/mpeg''),
            Call (HeaderSet ''Server'' ''BoringStreamer/4.0''),
            Call (Write id3_stub Written)] @ in_step q br fs"
proof -
  obtain m' where sub: "subscribe maxc frames m = ((q, br), m')"
    using assms(1) by (cases "subscribe maxc frames m") auto
  obtain l e where loop: "stream_loop q br fs = (l, e)"
    by (cases "stream_loop q br fs") auto
  have "l @ (case e of Exited v \<Rightarrow> [Report br \<lparr>qid = q, err = v\<rparr>] | _ \<Rightarrow> []) = in_step q br fs"
    using stream_loop_in_step [OF assms(3), of q br] loop by simp
  then show ?thesis
    using assms(2) sub loop
    by (cases e) (auto simp: ServeHTTP_def io_copy_def id3_stub_def)
qed

text \<open>
  Claim C9. The claim holds of the handler only as long as the write goroutine does not
  assign \<open>err\<close> between the handler's assignment in the timeout branch and the handler's
  reads. Here a session with id 0 receives a frame whose write returns \<open>nil\<close> after the
  deadline. When the goroutine assigns before the handler's test, the session sends no
  report on the frame, stays in the loop and receives the next frame; when it assigns after
  the test, the one report sent carries no error, or the error of the write. The
  specification asks for the report with the timeout error, and that is the report sent
  when the goroutine assigns at another moment.
\<close>

theorem session_late_write_report:
  "received_of (fst (ServeHTTP 42 ''now'' 7 None [([1, 2], RacedBeforeTest None), ([3], Written)]
                      (start_mux 0))) = [ [1, 2], [3] ]
   \<and> reports_of (fst (ServeHTTP 42 ''now'' 7 None [([1, 2], RacedBeforeTest None), ([3], Written)]
                      (start_mux 0))) = [\<lparr>qid = 0, err = None\<rparr>]
   \<and> reports_of (fst (ServeHTTP 42 ''now'' 7 None [([1, 2], RacedBeforeTest None)]
                      (start_mux 0))) = []
   \<and> reports_of (fst (ServeHTTP 42 ''now'' 7 None [([1, 2], RacedBeforeReport None)]
                      (start_mux 0))) = [\<lparr>qid = 0, err = None\<rparr>]
   \<and> reports_of (fst (ServeHTTP 42 ''now'' 7 None [([1, 2], RacedBeforeReport (Some ''broken pipe''))]
                      (start_mux 0))) = [\<lparr>qid = 0, err = Some ''broken pipe''\<rparr>]
   \<and> reports_of (fst (ServeHTTP 42 ''now'' 7 None [([1, 2], TimedOut)]
                      (start_mux 0))) = [\<lparr>qid = 0, err = Some ''timeout: 4s''\<rparr>]
   \<and> report_for 0 (RacedBeforeReport None) = \<lparr>qid = 0, err = Some ''timeout: 4s''\<rparr>"
  by (simp add: ServeHTTP_def subscribe_first io_copy_def id3_stub_def report_for_def
      timeout_error_def)


text \<open>
  The five \<open>Header().Set\<close> calls come after \<open>WriteHeader(http.StatusOK)\<close>: none of the
  values set reaches the header that is sent.
\<close>

lemma session_sent_header:
  assumes "fst (subscribe maxc frames m) = (q, br)" and "0 \<le> q"
  shows "sent_header (respond (fst (ServeHTTP maxc now frames stub fs m))) = Map.empty"
proof -
  obtain m' where sub: "subscribe maxc frames m = ((q, br), m')"
    using assms(1) by (cases "subscribe maxc frames m") auto
  have keep: "status r \<noteq> None \<Longrightarrow> sent_header (foldl respond1 r cs) = sent_header r" for r cs
  proof (induction cs arbitrary: r)
    case Nil
    show ?case by simp
  next
    case (Cons c cs)
    have "status (respond1 r c) \<noteq> None \<and> sent_header (respond1 r c) = sent_header r"
      using Cons.prems by (cases "(r, c)" rule: respond1.cases) (auto simp: write_header_def)
    then show ?case using Cons.IH [of "respond1 r c"] by simp
  qed
  obtain l e where loop: "stream_loop q br fs = (l, e)"
    by (cases "stream_loop q br fs") auto
  show ?thesis
    using assms(2) sub loop
    by (cases stub; cases e)
       (simp_all add: ServeHTTP_def respond_def new_response_def write_header_def keep io_copy_def
          id3_stub_def)
qed




section \<open>Properties of the broadcast loop\<close>

lemma connect_cases:
  assumes "connect maxc s = (evs, s')"
  obtains (denied) "evs = [Denied (nchan s)]" "s' = s\<lparr>nchan := nchan s + 1\<rparr>"
  | (subscribed) q where "0 \<le> q" "q \<le> max 0 (maxc - 1)" "clients (mx s) q = None"
      "evs = [Subscribed q (nchan s)]"
      "s' = s\<lparr>nchan := nchan s + 1, mx := (mx s)\<lparr>clients := (clients (mx s))(q \<mapsto> nchan s)\<rparr>\<rparr>"
proof (cases "search_qid maxc (clients (mx s)) 0")
  case None
  then have "evs = [Denied (nchan s)]" "s' = s\<lparr>nchan := nchan s + 1\<rparr>"
    using assms by (auto simp: connect_def subscribe_def Let_def)
  then show ?thesis by (rule denied)
next
  case (Some q)
  then have q: "0 \<le> q" "clients (mx s) q = None" "q = 0 \<or> q \<le> maxc - 1"
    by (auto simp: search_qid_Some_iff)
  then have b: "q \<le> max 0 (maxc - 1)" by auto
  have "evs = [Subscribed q (nchan s)]"
    "s' = s\<lparr>nchan := nchan s + 1, mx := (mx s)\<lparr>clients := (clients (mx s))(q \<mapsto> nchan s)\<rparr>\<rparr>"
    using assms Some q(1) by (auto simp: connect_def subscribe_def Let_def)
  with q(1) b q(2) show ?thesis by (rule subscribed)
qed

lemma bstep_cases:
  assumes "bstep maxc x s = Done (evs, s')"
  obtains (frame) f where "x = NextFrame f" "pc s = AwaitFrame" "evs = []"
      "s' = s\<lparr>pc := AtRange, cur := f, ranged := dom (clients (mx s)),
              yielded := {}, removed := {}\<rparr>"
  | (yield) k ch where "x = Yield k" "pc s = AtRange" "k \<notin> yielded s"
      "clients (mx s) k = Some ch" "evs = []"
      "s' = s\<lparr>pc := Sending ch, yielded := insert k (yielded s)\<rparr>"
  | (endrange) "x = EndRange" "pc s = AtRange" "range_ends s" "evs = []"
      "s' = s\<lparr>pc := AwaitFrame\<rparr>"
  | (send) ch where "x = SendDone" "pc s = Sending ch" "ch \<notin> closed s"
      "evs = [Send ch (cur s)]" "s' = s\<lparr>pc := Receiving\<rparr>"
  | (report) br where "x = ReportIn br" "pc s = Receiving" "evs = [RecvReport br]"
      "s' = s\<lparr>pc := (if err br = None then Relocking else Evicting br)\<rparr>"
  | (evict) br c where "x = Evict" "pc s = Evicting br" "clients (mx s) (qid br) = Some c"
      "c \<notin> closed s" "evs = [Close c, Delete (qid br)]"
      "s' = s\<lparr>mx := evict (qid br) (mx s), closed := insert c (closed s),
              yielded := yielded s - {qid br}, removed := insert (qid br) (removed s),
              pc := Relocking\<rparr>"
  | (relock) "x = Relock" "pc s = Relocking" "evs = []" "s' = s\<lparr>pc := AtRange\<rparr>"
  | (connect) "x = Connect" "pc s \<noteq> AtRange" "connect maxc s = (evs, s')"
proof (cases x)
  case (NextFrame f)
  then show ?thesis using assms frame by (auto split: if_splits)
next
  case (Yield k)
  then show ?thesis
    using assms yield by (auto simp: range_yields_def split: if_splits option.splits)
next
  case EndRange
  then show ?thesis using assms endrange by (auto split: if_splits)
next
  case SendDone
  then show ?thesis using assms send by (auto split: if_splits pc.splits)
next
  case (ReportIn br)
  then show ?thesis using assms report by (auto split: if_splits)
next
  case Evict
  then show ?thesis
    using assms evict by (auto simp: evict_step_def split: if_splits pc.splits option.splits)
next
  case Relock
  then show ?thesis using assms relock by (auto split: if_splits)
next
  case Connect
  then show ?thesis using assms connect by (auto split: if_splits)
qed

lemma broadcast_Cons:
  assumes "broadcast maxc (x # xs) s = Done (evs, s')"
  obtains e1 s1 e2 where "bstep maxc x s = Done (e1, s1)"
    "broadcast maxc xs s1 = Done (e2, s')" "evs = e1 @ e2"
  using assms by (auto split: outcome.splits)


lemma sent_to_simps [simp]:
  "sent_to [] = []"
  "sent_to (Send ch f # evs) = ch # sent_to evs"
  "sent_to (RecvReport br # evs) = sent_to evs"
  "sent_to (Close c # evs) = sent_to evs"
  "sent_to (Delete q # evs) = sent_to evs"
  "sent_to (Subscribed q c # evs) = sent_to evs"
  "sent_to (Denied c # evs) = sent_to evs"
  "sent_to (xs @ ys) = sent_to xs @ sent_to ys"
  by (simp_all add: sent_to_def)

lemma received_simps [simp]:
  "received [] = []"
  "received (Send ch f # evs) = received evs"
  "received (RecvReport br # evs) = br # received evs"
  "received (Close c # evs) = received evs"
  "received (Delete q # evs) = received evs"
  "received (Subscribed q c # evs) = received evs"
  "received (Denied c # evs) = received evs"
  "received (xs @ ys) = received xs @ received ys"
  by (simp_all add: received_def)

lemma closes_simps [simp]:
  "closes [] = []"
  "closes (Send ch f # evs) = closes evs"
  "closes (RecvReport br # evs) = closes evs"
  "closes (Close c # evs) = c # closes evs"
  "closes (Delete q # evs) = closes evs"
  "closes (Subscribed q c # evs) = closes evs"
  "closes (Denied c # evs) = closes evs"
  "closes (xs @ ys) = closes xs @ closes ys"
  by (simp_all add: closes_def)

lemma arrivals_simps [simp]:
  "arrivals [] = []"
  "arrivals (NextFrame f # xs) = arrivals xs"
  "arrivals (Yield k # xs) = arrivals xs"
  "arrivals (EndRange # xs) = arrivals xs"
  "arrivals (SendDone # xs) = arrivals xs"
  "arrivals (ReportIn br # xs) = br # arrivals xs"
  "arrivals (Evict # xs) = arrivals xs"
  "arrivals (Relock # xs) = arrivals xs"
  "arrivals (Connect # xs) = arrivals xs"
  "arrivals (xs @ ys) = arrivals xs @ arrivals ys"
  by (simp_all add: arrivals_def)


lemma ran_upd_free:
  assumes "cl q = None" and "ch \<in> ran cl"
  shows "ch \<in> ran (cl(q \<mapsto> c))"
proof -
  from assms(2) obtain a where a: "cl a = Some ch" by (auto simp: ran_def)
  then have "a \<noteq> q" using assms(1) by auto
  then have "(cl(q \<mapsto> c)) a = Some ch" using a by simp
  then show ?thesis by (rule ranI)
qed


lemma no_send_after_close_append:
  "no_send_after_close (xs @ ys) \<longleftrightarrow>
     no_send_after_close xs \<and> no_send_after_close ys
     \<and> (\<forall>c. Close c \<in> set xs \<longrightarrow> c \<notin> set (sent_to ys))"
  by (induction xs rule: no_send_after_close.induct) auto

lemma quiet_refl: "binv maxc s \<Longrightarrow> quiet maxc s [] s"
  by (simp add: quiet_def)

lemma quiet_trans:
  assumes "quiet maxc s xs s1" and "quiet maxc s1 ys s2"
  shows "quiet maxc s (xs @ ys) s2"
proof -
  have a: "binv maxc s2" "closed s \<subseteq> closed s2"
    using assms by (auto simp: quiet_def)
  have b: "\<forall>c \<in> closed s. c \<notin> set (sent_to (xs @ ys))"
    using assms by (auto simp: quiet_def)
  have c: "no_send_after_close (xs @ ys)"
    unfolding no_send_after_close_append using assms by (auto simp: quiet_def)
  have d: "\<forall>c. Close c \<in> set (xs @ ys) \<longrightarrow> c \<in> closed s2"
    using assms by (auto simp: quiet_def)
  have e: "xs @ ys = [] \<longrightarrow> mx s2 = mx s"
    using assms by (auto simp: quiet_def)
  have f: "\<forall>q. xs @ ys \<noteq> [] \<and> last (xs @ ys) = Delete q \<longrightarrow>
            clients (mx s2) q = None \<and> 0 \<le> q \<and> q \<le> max 0 (maxc - 1)"
  proof (cases "ys = []")
    case True
    then have "mx s2 = mx s1" using assms(2) by (simp add: quiet_def)
    then show ?thesis using True assms(1) by (simp add: quiet_def)
  next
    case False
    then show ?thesis using assms(2) by (simp add: quiet_def)
  qed
  show ?thesis
    unfolding quiet_def using a b c d e f by blast
qed

lemma quiet_connect:
  assumes "binv maxc s" and "connect maxc s = (evs, s')"
  shows "quiet maxc s evs s'"
  using assms(2)
proof (cases rule: connect_cases)
  case denied
  have "binv maxc s'"
    using assms(1) unfolding binv_def denied(2) by (auto simp: less_Suc_eq)
  then show ?thesis
    unfolding quiet_def using denied by auto
next
  case (subscribed q)
  have "binv maxc s'"
    using assms(1) subscribed(1,2,3) unfolding binv_def subscribed(5)
    by (auto simp: less_Suc_eq intro: ran_upd_free split: if_splits)
  then show ?thesis
    unfolding quiet_def using subscribed by auto
qed

lemma quiet_bstep:
  assumes "binv maxc s" and "bstep maxc x s = Done (evs, s')"
  shows "quiet maxc s evs s'"
  using assms(2)
proof (cases rule: bstep_cases)
  case (frame f)
  then show ?thesis using assms(1) by (auto simp: quiet_def binv_def)
next
  case (yield k ch)
  then show ?thesis using assms(1) by (auto simp: quiet_def binv_def ran_def)
next
  case endrange
  then show ?thesis using assms(1) by (auto simp: quiet_def binv_def)
next
  case (send ch)
  then show ?thesis using assms(1) by (auto simp: quiet_def binv_def)
next
  case (report br)
  then show ?thesis using assms(1) by (auto simp: quiet_def binv_def)
next
  case (evict br c)
  have inv': "binv maxc s'"
    using assms(1) evict(2,3,4) unfolding binv_def evict(6)
    by (auto simp: evict_def split: if_splits)
  have q: "0 \<le> qid br \<and> qid br \<le> max 0 (maxc - 1)"
    using assms(1) evict(3) unfolding binv_def by (metis atLeastAtMost_iff domI subsetD)
  show ?thesis
    unfolding quiet_def
    using inv' q evict by (auto simp: evict_def)
next
  case relock
  then show ?thesis using assms(1) by (auto simp: quiet_def binv_def)
next
  case connect
  obtain evs0 s0 where c: "connect maxc s = (evs0, s0)" by (cases "connect maxc s")
  have "binv maxc s" using assms(1) .
  then show ?thesis using connect(3) by (rule quiet_connect)
qed

lemma quiet_broadcast:
  "binv maxc s \<Longrightarrow> broadcast maxc xs s = Done (evs, s') \<Longrightarrow> quiet maxc s evs s'"
proof (induction xs arbitrary: s evs s')
  case Nil
  then show ?case by (simp add: quiet_refl)
next
  case (Cons x xs)
  from Cons.prems(2) obtain e1 s1 e2 where
    st: "bstep maxc x s = Done (e1, s1)" and
    rest: "broadcast maxc xs s1 = Done (e2, s')" and evs: "evs = e1 @ e2"
    by (rule broadcast_Cons)
  have q1: "quiet maxc s e1 s1"
    using Cons.prems(1) st by (rule quiet_bstep)
  then have "binv maxc s1" by (simp add: quiet_def)
  then have "quiet maxc s1 e2 s'" using rest by (rule Cons.IH)
  with q1 show ?case unfolding evs by (rule quiet_trans)
qed

lemma binv_start: "binv maxc start_state"
  by (simp add: binv_def start_state_def start_mux_def)

text \<open>
  From \<open>start\<close> the goroutine never sends on a closed queue and never closes a queue
  twice: the only panic left is the close of the \<open>nil\<close> channel, when a report names an
  id that is not registered.
\<close>

lemma bstep_panic:
  assumes "binv maxc s" and "bstep maxc x s = Panicked p"
  shows "p = CloseOfNilChannel"
proof (cases x)
  case SendDone
  then obtain ch where ch: "pc s = Sending ch" "ch \<in> closed s"
    using assms(2) by (auto split: pc.splits if_splits)
  then obtain k where "clients (mx s) k = Some ch"
    using assms(1) by (auto simp: binv_def ran_def)
  then have "ch \<notin> closed s" using assms(1) by (simp add: binv_def)
  then show ?thesis using ch by simp
next
  case Evict
  then obtain br where br: "pc s = Evicting br" "evict_step br s = Panicked p"
    using assms(2) by (auto split: pc.splits)
  show ?thesis
  proof (cases "clients (mx s) (qid br)")
    case None
    then show ?thesis using br(2) by (simp add: evict_step_def)
  next
    case (Some c)
    then have "c \<notin> closed s" using assms(1) by (simp add: binv_def)
    then show ?thesis using br(2) Some by (simp add: evict_step_def)
  qed
qed (use assms(2) in \<open>auto simp: range_yields_def split: if_splits option.splits\<close>)

lemma broadcast_panic:
  "binv maxc s \<Longrightarrow> broadcast maxc xs s = Panicked p \<Longrightarrow> p = CloseOfNilChannel"
proof (induction xs arbitrary: s)
  case Nil
  then show ?case by simp
next
  case (Cons x xs)
  show ?case
  proof (cases "bstep maxc x s")
    case (Done r)
    obtain e1 s1 where r: "r = (e1, s1)" by (cases r)
    have "quiet maxc s e1 s1" using Cons.prems(1) Done r quiet_bstep by blast
    then have inv: "binv maxc s1" by (simp add: quiet_def)
    have "broadcast maxc xs s1 = Panicked p"
      using Cons.prems(2) Done r by (auto split: outcome.splits)
    with inv show ?thesis by (rule Cons.IH)
  next
    case (Panicked p')
    then have "p' = p" using Cons.prems(2) by simp
    then show ?thesis using bstep_panic [OF Cons.prems(1)] Panicked by simp
  next
    case NotARun
    then show ?thesis using Cons.prems(2) by simp
  qed
qed









text \<open>
  Claim C6. In every run of the broadcaster from \<open>start\<close>, with handlers subscribing at
  any moment: once the queue of an evicted endpoint is closed, no frame is sent on it in
  the rest of the run; and right after an eviction the id is free, and the very next call
  of subscribe succeeds with an id not above it, that very id when all smaller ids are
  taken.
\<close>

theorem evicted_endpoint:
  assumes "broadcast maxc xs start_state = Done (evs, s)"
  shows "no_send_after_close evs
       \<and> (\<forall>q. evs \<noteq> [] \<and> last evs = Delete q \<longrightarrow>
            clients (mx s) q = None
            \<and> (\<exists>q'. 0 \<le> q' \<and> q' \<le> q
                  \<and> fst (subscribe maxc ch (mx s)) = (q', Some (result (mx s)))
                  \<and> ((\<forall>j. 0 \<le> j \<and> j < q \<longrightarrow> clients (mx s) j \<noteq> None) \<longrightarrow> q' = q)))"
proof -
  have q: "quiet maxc start_state evs s"
    using binv_start assms by (rule quiet_broadcast)
  then have a: "no_send_after_close evs" by (simp add: quiet_def)
  have b: "clients (mx s) q = None
            \<and> (\<exists>q'. 0 \<le> q' \<and> q' \<le> q
                  \<and> fst (subscribe maxc ch (mx s)) = (q', Some (result (mx s)))
                  \<and> ((\<forall>j. 0 \<le> j \<and> j < q \<longrightarrow> clients (mx s) j \<noteq> None) \<longrightarrow> q' = q))"
    if "evs \<noteq> [] \<and> last evs = Delete q" for q
  proof -
    from q that have free: "clients (mx s) q = None" and rng: "0 \<le> q" "q \<le> max 0 (maxc - 1)"
      by (auto simp: quiet_def)
    have "search_qid maxc (clients (mx s)) 0 \<noteq> None"
      using free rng by (auto simp: search_qid_None_iff)
    then obtain q' where s: "search_qid maxc (clients (mx s)) 0 = Some q'" by auto
    then have q': "0 \<le> q'" "clients (mx s) q' = None"
      "\<forall>j. 0 \<le> j \<and> j < q' \<longrightarrow> clients (mx s) j \<noteq> None"
      by (auto simp: search_qid_Some_iff)
    have le: "q' \<le> q"
    proof (rule ccontr)
      assume "\<not> q' \<le> q"
      then have "0 \<le> q \<and> q < q'" using rng by simp
      then show False using q'(3) free by blast
    qed
    have eq: "(\<forall>j. 0 \<le> j \<and> j < q \<longrightarrow> clients (mx s) j \<noteq> None) \<longrightarrow> q' = q"
      using q'(1,2) le by (cases "q' = q") auto
    have "fst (subscribe maxc ch (mx s)) = (q', Some (result (mx s)))"
      using s by (simp add: subscribe_def)
    then show ?thesis using free q'(1) le eq by blast
  qed
  show ?thesis using a b by blast
qed

lemma broadcast_example:
  "\<exists>s cl. broadcast 3 [Connect, Connect, NextFrame [1], Yield 0, SendDone,
                       ReportIn \<lparr>qid = 0, err = None\<rparr>, Relock, Yield 1, SendDone,
                       ReportIn \<lparr>qid = 1, err = Some ''timeout: 4s''\<rparr>, Connect, Evict]
             start_state
     = Done ([Subscribed 0 1, Subscribed 1 2,
              Send 1 [1], RecvReport \<lparr>qid = 0, err = None\<rparr>,
              Send 2 [1], RecvReport \<lparr>qid = 1, err = Some ''timeout: 4s''\<rparr>,
              Subscribed 2 3, Close 2, Delete 1], s)
        \<and> mx s = \<lparr>clients = cl, result = 0\<rparr> \<and> cl 0 = Some 1"
  by (simp add: range_yields_def range_ends_def evict_step_def connect_def
      subscribe_def search_qid.simps start_state_def start_mux_def evict_def Let_def)

theorem evicted_endpoint_witness:
  "no_send_after_close
     [Subscribed 0 1, Subscribed 1 2,
      Send 1 [1], RecvReport \<lparr>qid = 0, err = None\<rparr>,
      Send 2 [1], RecvReport \<lparr>qid = 1, err = Some ''timeout: 4s''\<rparr>,
      Subscribed 2 3, Close 2, Delete 1]
   \<and> (\<exists>cl. cl 0 = Some 1 \<and> cl 1 = None
         \<and> fst (subscribe 3 9 \<lparr>clients = cl, result = 0\<rparr>) = (1, Some 0))"
proof -
  let ?evs = "[Subscribed 0 1, Subscribed 1 2,
      Send 1 [1], RecvReport \<lparr>qid = 0, err = None\<rparr>,
      Send 2 [1], RecvReport \<lparr>qid = 1, err = Some ''timeout: 4s''\<rparr>,
      Subscribed 2 3, Close 2, Delete 1]"
  obtain s cl where run: "broadcast 3 [Connect, Connect, NextFrame [1], Yield 0, SendDone,
                       ReportIn \<lparr>qid = 0, err = None\<rparr>, Relock, Yield 1, SendDone,
                       ReportIn \<lparr>qid = 1, err = Some ''timeout: 4s''\<rparr>, Connect, Evict]
             start_state
     = Done (?evs, s)"
    and mx: "mx s = \<lparr>clients = cl, result = 0\<rparr>"
    and cl0: "cl 0 = Some 1"
    using broadcast_example by blast
  note th = evicted_endpoint [OF run, of 9]
  have l: "?evs \<noteq> [] \<and> last ?evs = Delete 1" by simp
  from th have a: "no_send_after_close ?evs" by (rule conjunct1)
  from th l obtain q' where q': "cl 1 = None" "0 \<le> q'" "q' \<le> 1"
    "fst (subscribe 3 9 \<lparr>clients = cl, result = 0\<rparr>) = (q', Some 0)"
    "(\<forall>j. 0 \<le> j \<and> j < 1 \<longrightarrow> cl j \<noteq> None) \<longrightarrow> q' = 1"
    unfolding mx by auto
  have "\<forall>j::int. 0 \<le> j \<and> j < 1 \<longrightarrow> cl j \<noteq> None"
  proof (intro allI impI)
    fix j :: int assume "0 \<le> j \<and> j < 1"
    then have "j = 0" by simp
    then show "cl j \<noteq> None" using cl0 by simp
  qed
  then have "q' = 1" using q'(5) by blast
  then show ?thesis using a cl0 q'(1,4) by blast
qed

section \<open>Properties of discovery and shuffling\<close>

lemma mset_reservoir: "mset (reservoir shuffled f r) = add_mset f (mset shuffled)"
proof (cases "length shuffled = 0")
  case True
  then show ?thesis by (simp add: reservoir_def)
next
  case False
  let ?i = "r mod length shuffled"
  have i: "?i < length shuffled" using False by simp
  then have "mset ((shuffled @ [shuffled ! ?i])[?i := f])
             = add_mset f (mset (shuffled @ [shuffled ! ?i]) - {#(shuffled @ [shuffled ! ?i]) ! ?i#})"
    by (simp add: mset_update)
  also have "\<dots> = add_mset f (mset shuffled)"
    using i by (simp add: nth_append)
  finally show ?thesis using False by (simp add: reservoir_def Let_def)
qed

lemma mset_shuffle: "mset (shuffle fs pick n shuffled) = mset fs + mset shuffled"
  by (induction fs pick n shuffled rule: shuffle.induct)
     (simp_all add: mset_reservoir split: choice.splits)

lemma walkfn_Entry:
  "walkfn ToLower (Entry p info) =
     (if fmode info = ModeRegular \<and> suffix ''.mp3'' (ToLower (fname info))
      then (Some p, None) else (None, None))"
  by (auto simp: walkfn_def IsRegular_def IsDir_def Let_def)

lemma walkfn_Unreadable: "walkfn ToLower (Unreadable p werr) = (None, None)"
  by (simp add: walkfn_def)

lemma walkfn_old_Entry:
  "walkfn_old ToLower (Entry p info) =
     (if fmode info = ModeRegular \<and> suffix ''.mp3'' (ToLower (fname info))
      then (Some p, None) else (None, None))"
  by (auto simp: walkfn_old_def IsRegular_def IsDir_def Let_def)

lemma walkfn_old_Unreadable: "walkfn_old ToLower (Unreadable p werr) = (None, Some werr)"
  by (simp add: walkfn_old_def)

lemma Walk_walkfn: "Walk (walkfn ToLower) es = matching ToLower es"
  by (induction ToLower es rule: matching.induct)
     (simp_all add: walkfn_Entry walkfn_Unreadable)

lemma Walk_walkfn_old: "Walk (walkfn_old ToLower) es = matching ToLower (before_error es)"
  by (induction ToLower es rule: matching.induct)
     (simp_all add: walkfn_old_Entry walkfn_old_Unreadable)

text \<open>
  Claim C7, for the two scans of the repository. For every single scan of \<open>start\<close>,
  whatever the shuffle draws and whichever files are sent on at once, the paths emitted to
  the play queue are, as a multiset, the regular files the walk comes to whose lowercased
  name ends in \<open>.mp3\<close>, each emitted exactly once; an entry that cannot be read removes no
  other file. In \<open>genFileList\<close> of the older file the first read error ends the walk: the
  paths emitted are the matching files that come before it.
\<close>

theorem scan_emits_matching:
  "mset (scan ToLower entries pick) = mset (matching ToLower entries)
   \<and> (distinct (matching ToLower entries) \<longrightarrow> distinct (scan ToLower entries pick))
   \<and> mset (genFileList ToLower entries pick) = mset (matching ToLower (before_error entries))"
proof -
  have a: "mset (scan ToLower entries pick) = mset (matching ToLower entries)"
    by (simp add: scan_def mset_shuffle Walk_walkfn)
  have b: "mset (genFileList ToLower entries pick) = mset (matching ToLower (before_error entries))"
    by (simp add: genFileList_def mset_shuffle Walk_walkfn_old)
  from a have "distinct (matching ToLower entries) \<longrightarrow> distinct (scan ToLower entries pick)"
    using mset_eq_imp_distinct_iff by blast
  with a b show ?thesis by blast
qed


lemma example_matching:
  "matching ascii_lower example_tree = [''/r/a.MP3'', ''/r/c.mp3'', ''/r/e.mp3'']"
  by code_simp

lemma example_scan:
  "scan ascii_lower example_tree example_pick = [''/r/a.MP3'', ''/r/e.mp3'', ''/r/c.mp3'']"
  by code_simp

lemma example_genFileList:
  "genFileList ascii_lower example_tree example_pick = [''/r/a.MP3'']"
  by code_simp

theorem scan_emits_matching_witness:
  "scan ascii_lower example_tree example_pick = [''/r/a.MP3'', ''/r/e.mp3'', ''/r/c.mp3'']
   \<and> distinct (scan ascii_lower example_tree example_pick)
   \<and> mset (scan ascii_lower example_tree example_pick)
       = mset [''/r/a.MP3'', ''/r/c.mp3'', ''/r/e.mp3'']"
proof -
  have d: "distinct (matching ascii_lower example_tree)"
    unfolding example_matching by simp
  note th = scan_emits_matching [of ascii_lower example_tree example_pick]
  from th have m: "mset (scan ascii_lower example_tree example_pick)
                   = mset (matching ascii_lower example_tree)"
    by (rule conjunct1)
  from th d have "distinct (scan ascii_lower example_tree example_pick)"
    by blast
  then show ?thesis
    using m example_scan unfolding example_matching by blast
qed

text \<open>
  With a directory that cannot be read between \<open>a.MP3\<close> and \<open>c.mp3\<close>, the scan of
  \<open>genFileList\<close> emits \<open>a.MP3\<close> only: the read error removes two matching files.
\<close>

theorem genFileList_error_counterexample:
  "matching ascii_lower example_tree = [''/r/a.MP3'', ''/r/c.mp3'', ''/r/e.mp3'']
   \<and> genFileList ascii_lower example_tree example_pick = [''/r/a.MP3'']"
  using example_matching example_genFileList by (rule conjI)

end
